theory Spec2Isabelle
  imports Complex_Main
begin

section \<open>RankFit: ranking-quality metrics over binned scores\<close>

text \<open>
  A shallow embedding of \<^verbatim>\<open>rankfit/metrics.py\<close> and of
  \<^verbatim>\<open>RankFitAnalyzer.calculate_metrics\<close> in \<^verbatim>\<open>rankfit/analyzer.py\<close>.

  Python floats are modelled as the reals, extended by a not-a-number value where the
  code can meet one. Rounding is modelled only for the violation scan and the violation
  score, which are also given on doubles. The functions of pandas, numpy and scipy
  that the code calls are outside the repository; each is modelled after the behaviour of
  the library on the arguments that the code passes, and says so where it is defined.
\<close>

subsection \<open>Values and errors\<close>

datatype error = ValueError | IndexError | TypeError

text \<open>A Python float: a real number or \<^verbatim>\<open>nan\<close>.\<close>

datatype pyfloat = Fin real | NaN

fun pf_add :: "pyfloat \<Rightarrow> pyfloat \<Rightarrow> pyfloat" where
  "pf_add (Fin a) (Fin b) = Fin (a + b)"
| "pf_add _ _ = NaN"

text \<open>Division by a non-zero constant is all the code needs (\<^verbatim>\<open>/ 2\<close>).\<close>

fun pf_div :: "pyfloat \<Rightarrow> pyfloat \<Rightarrow> pyfloat" where
  "pf_div (Fin a) (Fin b) = (if b = 0 then NaN else Fin (a / b))"
| "pf_div _ _ = NaN"

text \<open>
  A violation tuple \<^verbatim>\<open>(i, i + 1, event_rates[i], event_rates[i + 1], severity)\<close>;
  \<^verbatim>\<open>v[4]\<close> is its last component.
\<close>

type_synonym violation = "nat \<times> nat \<times> real \<times> real \<times> real"

definition magnitude :: "violation \<Rightarrow> real" where
  "magnitude v = (case v of (i, j, r0, r1, severity) \<Rightarrow> severity)"

subsection \<open>metrics.py\<close>

text \<open>
  \<^verbatim>\<open>np.max\<close> and \<^verbatim>\<open>np.min\<close> of a non-empty array. Both raise on an empty
  array; \<^verbatim>\<open>calculate_rankfit_v\<close> calls them only behind its guard
  \<^verbatim>\<open>len(event_rates) < 2\<close>, so the model gives the empty case no meaning.
\<close>

definition np_max :: "real list \<Rightarrow> real" where
  "np_max xs = fold max (tl xs) (hd xs)"

definition np_min :: "real list \<Rightarrow> real" where
  "np_min xs = fold min (tl xs) (hd xs)"

text \<open>\<^verbatim>\<open>np.sum\<close> of a list of floats; the sum of the empty list is 0.\<close>

definition np_sum :: "real list \<Rightarrow> real" where
  "np_sum xs = fold (\<lambda>x acc. acc + x) xs 0"

definition calculate_rankfit_v :: "real list \<Rightarrow> violation list \<Rightarrow> real" where
  "calculate_rankfit_v event_rates violations =
     (if length event_rates < 2 then 1
      else
        let violation_magnitudes = map magnitude violations;
            total_range = np_max event_rates - np_min event_rates
        in if total_range = 0 then 1
           else max 0 (1 - np_sum violation_magnitudes / total_range))"

text \<open>
  \<^verbatim>\<open>scipy.stats.kendalltau(x, y)\<close> with its defaults (variant b), modelled after the
  library: the statistic is \<^verbatim>\<open>nan\<close> for empty input and when all pairs are tied in
  \<open>x\<close> or all pairs are tied in \<open>y\<close>; otherwise it is
  \<^verbatim>\<open>con_minus_dis / sqrt(tot - xtie) / sqrt(tot - ytie)\<close>, limited to \<open>[-1, 1]\<close>.
  The library counts tied and discordant pairs after sorting; the model counts them
  over the index pairs \<open>i < j\<close>, which gives the same numbers. The statistic is always a
  float; the result type has \<open>None\<close> for Python's \<^verbatim>\<open>None\<close> only because the
  caller tests for it.
\<close>

definition index_pairs :: "nat \<Rightarrow> (nat \<times> nat) list" where
  "index_pairs n = concat (map (\<lambda>i. map (\<lambda>j. (i, j)) [Suc i..<n]) [0..<n])"

definition count_pairs :: "(nat \<times> nat \<Rightarrow> bool) \<Rightarrow> nat \<Rightarrow> nat" where
  "count_pairs P n = length (filter P (index_pairs n))"

definition kendalltau :: "int list \<Rightarrow> real list \<Rightarrow> error + pyfloat option" where
  "kendalltau x y =
     (if length x \<noteq> length y then Inl ValueError
      else if x = [] then Inr (Some NaN)
      else
        let size = length x;
            dis = count_pairs (\<lambda>(i, j). (x ! i < x ! j \<and> y ! j < y ! i) \<or>
                                          (x ! j < x ! i \<and> y ! i < y ! j)) size;
            ntie = count_pairs (\<lambda>(i, j). x ! i = x ! j \<and> y ! i = y ! j) size;
            xtie = count_pairs (\<lambda>(i, j). x ! i = x ! j) size;
            ytie = count_pairs (\<lambda>(i, j). y ! i = y ! j) size;
            tot = (size * (size - 1)) div 2
        in if xtie = tot \<or> ytie = tot then Inr (Some NaN)
           else
             let con_minus_dis = int tot - int xtie - int ytie + int ntie - 2 * int dis;
                 tau = real_of_int con_minus_dis / sqrt (real (tot - xtie))
                         / sqrt (real (tot - ytie))
             in Inr (Some (Fin (min 1 (max (- 1) tau)))))"

text \<open>\<^verbatim>\<open>-np.arange(n)\<close>\<close>

definition neg_arange :: "nat \<Rightarrow> int list" where
  "neg_arange n = map (\<lambda>i. - int i) [0..<n]"

text \<open>
  \<^verbatim>\<open>calculate_rankfit_t\<close>. The line \<^verbatim>\<open>rankfit_t = (tau + 1) / 2\<close> runs before the
  test \<^verbatim>\<open>tau is not None\<close>; on \<^verbatim>\<open>None\<close> the addition raises TypeError.
\<close>

definition calculate_rankfit_t :: "real list \<Rightarrow> error + pyfloat" where
  "calculate_rankfit_t event_rates =
     (if length event_rates < 2 then Inr (Fin 1)
      else
        let bin_indices = neg_arange (length event_rates)
        in case kendalltau bin_indices event_rates of
             Inl e \<Rightarrow> Inl e
           | Inr tau \<Rightarrow>
               (case tau of
                  None \<Rightarrow> Inl TypeError
                | Some t \<Rightarrow>
                    let rankfit_t = pf_div (pf_add t (Fin 1)) (Fin 2)
                    in Inr (if tau \<noteq> None then rankfit_t else Fin (1 / 2))))"

subsection \<open>analyzer.py: the violation scan\<close>

text \<open>
  The loop \<^verbatim>\<open>for i in range(len(event_rates) - 1)\<close> of \<^verbatim>\<open>calculate_metrics\<close>,
  as a recursion on the loop index \<open>i\<close> with the list \<open>violations\<close> built so far.
  The range is empty when \<^verbatim>\<open>len(event_rates) - 1\<close> is 0 or negative.
\<close>

function violations_loop :: "real list \<Rightarrow> nat \<Rightarrow> violation list \<Rightarrow> violation list" where
  "violations_loop event_rates i violations =
     (if int i < int (length event_rates) - 1 then
        (if event_rates ! (i + 1) > event_rates ! i then
           let severity = event_rates ! (i + 1) - event_rates ! i
           in violations_loop event_rates (i + 1)
                (violations @ [(i, i + 1, event_rates ! i, event_rates ! (i + 1), severity)])
         else violations_loop event_rates (i + 1) violations)
      else violations)"
  by pat_completeness auto
termination
  by (relation "measure (\<lambda>(event_rates, i, violations). length event_rates - i)") auto

definition find_violations :: "real list \<Rightarrow> violation list" where
  "find_violations event_rates = violations_loop event_rates 0 []"

subsection \<open>Double precision\<close>

text \<open>
  The definitions above compute on the reals. The code computes on IEEE 754 doubles:
  each of \<open>+\<close>, \<open>-\<close> and \<open>/\<close> returns the exact result rounded to the nearest number
  with a 53-bit significand, ties to the even significand. \<open>f64_round\<close> is this
  rounding for a real in the normal range (overflow and subnormal numbers are not
  modelled); \<open>binade x\<close> is the exponent \<open>e\<close> with \<open>2^e \<le> |x| < 2^(e+1)\<close>, computed
  from the bit length of an integer. A decimal literal such as \<^verbatim>\<open>0.2\<close> denotes
  \<open>f64_round (2/10)\<close>.
\<close>

fun bit_length :: "nat \<Rightarrow> nat" where
  "bit_length n = (if n = 0 then 0 else Suc (bit_length (n div 2)))"

declare bit_length.simps [simp del]

definition binade :: "real \<Rightarrow> int" where
  "binade x =
     (if 1 \<le> \<bar>x\<bar> then int (bit_length (nat \<lfloor>\<bar>x\<bar>\<rfloor>)) - 1
      else - int (bit_length (nat (\<lceil>1 / \<bar>x\<bar>\<rceil> - 1))))"

definition round_half_even :: "real \<Rightarrow> int" where
  "round_half_even r =
     (let f = \<lfloor>r\<rfloor>; d = r - real_of_int f
      in if d < 1 / 2 then f
         else if 1 / 2 < d then f + 1
         else if even f then f else f + 1)"

definition f64_round :: "real \<Rightarrow> real" where
  "f64_round x =
     (if x = 0 then 0
      else let ulp = 2 powi (binade x - 52)
           in real_of_int (round_half_even (x / ulp)) * ulp)"

text \<open>
  The violation scan and \<^verbatim>\<open>calculate_rankfit_v\<close> once more, on doubles: the same
  code with every subtraction, addition and division rounded. \<^verbatim>\<open>np.sum\<close> adds the
  elements in order, starting from 0, when there are fewer than 8 of them; for longer
  arrays numpy adds in blocks, which \<open>np_sum_f64\<close> does not follow. The properties
  below use \<open>np_sum_f64\<close> on fewer than 8 elements only.
\<close>

function violations_loop_f64 ::
  "real list \<Rightarrow> nat \<Rightarrow> violation list \<Rightarrow> violation list" where
  "violations_loop_f64 event_rates i violations =
     (if int i < int (length event_rates) - 1 then
        (if event_rates ! (i + 1) > event_rates ! i then
           let severity = f64_round (event_rates ! (i + 1) - event_rates ! i)
           in violations_loop_f64 event_rates (i + 1)
                (violations @ [(i, i + 1, event_rates ! i, event_rates ! (i + 1), severity)])
         else violations_loop_f64 event_rates (i + 1) violations)
      else violations)"
  by pat_completeness auto
termination
  by (relation "measure (\<lambda>(event_rates, i, violations). length event_rates - i)") auto

declare violations_loop_f64.simps [simp del]

definition find_violations_f64 :: "real list \<Rightarrow> violation list" where
  "find_violations_f64 event_rates = violations_loop_f64 event_rates 0 []"

definition np_sum_f64 :: "real list \<Rightarrow> real" where
  "np_sum_f64 xs = fold (\<lambda>x acc. f64_round (acc + x)) xs 0"

definition calculate_rankfit_v_f64 :: "real list \<Rightarrow> violation list \<Rightarrow> real" where
  "calculate_rankfit_v_f64 event_rates violations =
     (if length event_rates < 2 then 1
      else
        let violation_magnitudes = map magnitude violations;
            total_range = f64_round (np_max event_rates - np_min event_rates)
        in if total_range = 0 then 1
           else max 0 (f64_round (1 - f64_round (np_sum_f64 violation_magnitudes
                                                   / total_range))))"

subsection \<open>pandas and numpy: quantiles and binning\<close>

text \<open>
  \<^verbatim>\<open>np.linspace(start, stop, num)\<close>: \<open>num\<close> evenly spaced values, the single value
  \<open>start\<close> when \<open>num\<close> is 1, the empty array when it is 0, and ValueError when it is
  negative.
\<close>

definition linspace :: "real \<Rightarrow> real \<Rightarrow> int \<Rightarrow> error + real list" where
  "linspace start stop num =
     (if num < 0 then Inl ValueError
      else Inr (map (\<lambda>i. if num = 1 then start
                          else start + real i * ((stop - start) / real_of_int (num - 1)))
                  [0..<nat num]))"

text \<open>
  \<^verbatim>\<open>Series.quantile(q)\<close> of a non-empty series with the default linear interpolation:
  the value at the fractional position \<open>q * (n - 1)\<close> of the sorted data.
\<close>

definition quantile :: "real list \<Rightarrow> real \<Rightarrow> real" where
  "quantile xs q =
     (let s = sort xs;
          n = length s;
          pos = q * real (n - 1);
          lo = nat \<lfloor>pos\<rfloor>;
          hi = min (lo + 1) (n - 1)
      in s ! lo + (s ! hi - s ! lo) * (pos - real lo))"

text \<open>\<^verbatim>\<open>pandas.unique\<close>: the distinct values in order of first appearance.\<close>

fun unique_from :: "'a list \<Rightarrow> 'a list \<Rightarrow> 'a list" where
  "unique_from seen [] = []"
| "unique_from seen (x # xs) =
     (if x \<in> set seen then unique_from seen xs else x # unique_from (x # seen) xs)"

definition unique :: "'a list \<Rightarrow> 'a list" where
  "unique xs = unique_from [] xs"

text \<open>
  \<^verbatim>\<open>bins.searchsorted(v, side='left')\<close> on ascending edges: the first position whose
  edge is not below \<open>v\<close>.
\<close>

definition searchsorted_left :: "real list \<Rightarrow> real \<Rightarrow> nat" where
  "searchsorted_left bins v = length (takeWhile (\<lambda>b. b < v) bins)"

datatype duplicates = Raise | Drop

text \<open>
  pandas' \<^verbatim>\<open>_bins_to_cuts\<close> as both \<^verbatim>\<open>qcut\<close> and \<^verbatim>\<open>cut\<close> reach it from this
  code: \<^verbatim>\<open>right=True\<close>, \<^verbatim>\<open>include_lowest=True\<close>, \<^verbatim>\<open>labels=False\<close>. Duplicate
  edges are dropped or raise, except when there are exactly two edges. A value equal
  to the first edge gets position 1. A value whose position is 0 or \<open>len(bins)\<close> is
  outside every bin and is labelled \<^verbatim>\<open>nan\<close> (\<open>None\<close>); the others get the label
  \<open>position - 1\<close>; \<open>bin_label\<close> is this labelling of one value. Reading
  \<^verbatim>\<open>bins[0]\<close> of an empty edge array raises IndexError.
\<close>

definition bin_label :: "real list \<Rightarrow> real \<Rightarrow> nat option" where
  "bin_label bins v =
     (let ids = (if v = bins ! 0 then 1 else searchsorted_left bins v)
      in if ids = length bins \<or> ids = 0 then None else Some (ids - 1))"

definition bins_to_cuts ::
  "real list \<Rightarrow> real list \<Rightarrow> duplicates \<Rightarrow> error + nat option list" where
  "bins_to_cuts x bins0 dup =
     (let unique_bins = unique bins0;
          has_dups = (length unique_bins < length bins0 \<and> length bins0 \<noteq> 2)
      in if has_dups \<and> dup = Raise then Inl ValueError
         else
           let bins = (if has_dups then unique_bins else bins0)
           in if bins = [] then Inl IndexError
              else Inr (map (bin_label bins) x))"

text \<open>
  \<^verbatim>\<open>pd.qcut(x, q=q, labels=False, duplicates='drop')\<close>. A call with \<open>q\<close> below 1
  raises ValueError. Otherwise the edges are the quantiles of \<open>x\<close> at
  \<^verbatim>\<open>np.linspace(0, 1, q + 1)\<close>. The quantiles of an empty series are all
  \<^verbatim>\<open>nan\<close>; then there is no value to label. The quantile levels and the
  interpolation are exact here; the rounding of the code's double arithmetic, which
  can separate two edges that coincide in exact arithmetic, is not modelled.
\<close>

definition qcut :: "real list \<Rightarrow> int \<Rightarrow> error + nat option list" where
  "qcut x q =
     (if q < 1 then Inl ValueError
      else
        case linspace 0 1 (q + 1) of
          Inl e \<Rightarrow> Inl e
        | Inr quantiles \<Rightarrow>
            if x = [] then Inr []
            else bins_to_cuts x (map (quantile x) quantiles) Drop)"

text \<open>
  \<^verbatim>\<open>pd.cut(x, bins=bins, labels=False, include_lowest=True)\<close> with an integer
  \<open>bins\<close>: equal-width edges over the range of \<open>x\<close>, the range widened by 0.1 percent
  at the low end, or on both sides of the single value when all values are equal.
\<close>

definition cut :: "real list \<Rightarrow> int \<Rightarrow> error + nat option list" where
  "cut x bins =
     (if bins < 1 then Inl ValueError
      else if x = [] then Inl ValueError
      else
        let mn = np_min x; mx = np_max x
        in if mn = mx then
             (let mn' = mn - (if mn \<noteq> 0 then 0.001 * \<bar>mn\<bar> else 0.001);
                  mx' = mx + (if mx \<noteq> 0 then 0.001 * \<bar>mx\<bar> else 0.001)
              in case linspace mn' mx' (bins + 1) of
                   Inl e \<Rightarrow> Inl e
                 | Inr edges \<Rightarrow> bins_to_cuts x edges Raise)
           else
             (case linspace mn mx (bins + 1) of
                Inl e \<Rightarrow> Inl e
              | Inr edges \<Rightarrow>
                  let adj = (mx - mn) * 0.001
                  in bins_to_cuts x (edges[0 := edges ! 0 - adj]) Raise))"

text \<open>
  \<^verbatim>\<open>df['bin'].max() - df['bin']\<close>: the maximum skips \<^verbatim>\<open>nan\<close> and is \<^verbatim>\<open>nan\<close>
  when every label is; a \<^verbatim>\<open>nan\<close> label stays \<^verbatim>\<open>nan\<close>.
\<close>

definition reverse_bins :: "nat option list \<Rightarrow> nat option list" where
  "reverse_bins bins =
     (case concat (map (\<lambda>b. case b of None \<Rightarrow> [] | Some k \<Rightarrow> [k]) bins) of
        [] \<Rightarrow> map (\<lambda>b. None) bins
      | k # ks \<Rightarrow> map (map_option (\<lambda>b. fold max ks k - b)) bins)"

text \<open>
  One row of \<^verbatim>\<open>bin_stats\<close>, and the data frame \<^verbatim>\<open>df\<close> as a list of rows
  \<open>(score, actual, bin)\<close>.
\<close>

record bin_row =
  bin :: nat
  actual_mean :: real
  actual_count :: nat
  score_mean :: real

type_synonym frame = "(real \<times> int \<times> nat option) list"

text \<open>
  \<^verbatim>\<open>df.groupby('bin').agg(...).reset_index()\<close>: one row per distinct label, in
  ascending label order; rows of \<open>df\<close> labelled \<^verbatim>\<open>nan\<close> belong to no group.
\<close>

definition group_keys :: "frame \<Rightarrow> nat list" where
  "group_keys df =
     sort (remdups (concat
       (map (\<lambda>(score, actual, b). case b of None \<Rightarrow> [] | Some k \<Rightarrow> [k]) df)))"

definition group_rows :: "frame \<Rightarrow> nat \<Rightarrow> frame" where
  "group_rows df k = filter (\<lambda>(score, actual, b). b = Some k) df"

definition groupby_agg :: "frame \<Rightarrow> bin_row list" where
  "groupby_agg df =
     map (\<lambda>k. let g = group_rows df k
              in \<lparr>bin = k,
                  actual_mean = real_of_int (sum_list (map (\<lambda>(score, actual, b). actual) g))
                                  / real (length g),
                  actual_count = length g,
                  score_mean = sum_list (map (\<lambda>(score, actual, b). score) g)
                                 / real (length g)\<rparr>)
       (group_keys df)"

subsection \<open>analyzer.py: calculate\_metrics\<close>

record result =
  bin_stats :: "bin_row list"
  rankfit_v :: real
  rankfit_t :: pyfloat
  violations :: "violation list"

text \<open>
  The column \<^verbatim>\<open>df['bin']\<close> after the reversal: \<^verbatim>\<open>pd.qcut\<close>, with
  \<^verbatim>\<open>pd.cut\<close> in its place when \<^verbatim>\<open>pd.qcut\<close> raises ValueError (the
  \<^verbatim>\<open>try\<close>/\<^verbatim>\<open>except ValueError\<close>); any other error propagates.
\<close>

definition assign_bins :: "int \<Rightarrow> real list \<Rightarrow> error + nat option list" where
  "assign_bins n_bins y_scores =
     (case (case qcut y_scores n_bins of
              Inl ValueError \<Rightarrow> cut y_scores n_bins
            | r \<Rightarrow> r) of
        Inl e \<Rightarrow> Inl e
      | Inr bins \<Rightarrow> Inr (reverse_bins bins))"

text \<open>
  \<^verbatim>\<open>RankFitAnalyzer(n_bins).calculate_metrics(y_scores, y_true)\<close>.
  \<^verbatim>\<open>pd.DataFrame\<close> raises ValueError when its two columns differ in length.
\<close>

definition calculate_metrics :: "int \<Rightarrow> real list \<Rightarrow> int list \<Rightarrow> error + result" where
  "calculate_metrics n_bins y_scores y_true =
     (if length y_scores \<noteq> length y_true then Inl ValueError
      else
        case assign_bins n_bins y_scores of
          Inl e \<Rightarrow> Inl e
        | Inr bins \<Rightarrow>
            let df = zip y_scores (zip y_true bins);
                stats = groupby_agg df;
                event_rates = map actual_mean stats;
                viols = find_violations event_rates;
                v = calculate_rankfit_v event_rates viols
            in (case calculate_rankfit_t event_rates of
                  Inl e \<Rightarrow> Inl e
                | Inr t \<Rightarrow>
                    Inr \<lparr>bin_stats = stats, rankfit_v = v, rankfit_t = t,
                         violations = viols\<rparr>))"

subsection \<open>Notions used to state the properties\<close>

text \<open>
  The scores of the examples of one segment: the rows of \<^verbatim>\<open>df\<close> whose label in the
  reversed column \<^verbatim>\<open>df['bin']\<close> is \<open>k\<close>, the value that the row of
  \<^verbatim>\<open>bin_stats\<close> for the segment carries in its field \<open>bin\<close>.
\<close>

definition segment_scores :: "int \<Rightarrow> real list \<Rightarrow> nat \<Rightarrow> real list" where
  "segment_scores n_bins y_scores k =
     (case assign_bins n_bins y_scores of
        Inl e \<Rightarrow> []
      | Inr bins \<Rightarrow> map fst (filter (\<lambda>(score, b). b = Some k) (zip y_scores bins)))"

text \<open>
  \<^verbatim>\<open>0 <= x <= 1\<close> on a Python float: every comparison with \<^verbatim>\<open>nan\<close> is false.
\<close>

definition in_unit_interval :: "pyfloat \<Rightarrow> bool" where
  "in_unit_interval x = (case x of Fin r \<Rightarrow> 0 \<le> r \<and> r \<le> 1 | NaN \<Rightarrow> False)"

section \<open>Properties\<close>

subsection \<open>Library functions in closed form\<close>

lemma np_sum_eq: "np_sum xs = sum_list xs"
proof -
  have "fold (\<lambda>x acc. acc + x) xs a = a + sum_list xs" for a :: real
    by (induction xs arbitrary: a) (simp_all add: add.assoc)
  then show ?thesis by (simp add: np_sum_def)
qed

lemma fold_max_eq: "fold max xs (a::real) = Max (insert a (set xs))"
  by (metis Max.set_eq_fold list.simps(15))

lemma fold_min_eq: "fold min xs (a::real) = Min (insert a (set xs))"
  by (metis Min.set_eq_fold list.simps(15))

lemma np_max_eq: "xs \<noteq> [] \<Longrightarrow> np_max xs = Max (set xs)"
  by (cases xs) (simp_all add: np_max_def fold_max_eq)

lemma np_min_eq: "xs \<noteq> [] \<Longrightarrow> np_min xs = Min (set xs)"
  by (cases xs) (simp_all add: np_min_def fold_min_eq)

subsection \<open>The violation scan\<close>

declare violations_loop.simps [simp del]

lemma violations_loop_eq:
  "violations_loop rs i acc =
     acc @ map (\<lambda>i. (i, i + 1, rs ! i, rs ! (i + 1), rs ! (i + 1) - rs ! i))
             (filter (\<lambda>i. rs ! i < rs ! (i + 1)) [i..<length rs - 1])"
proof (induction rs i acc rule: violations_loop.induct)
  case (1 rs i acc)
  note step = violations_loop.simps [of rs i acc]
  show ?case
  proof (cases "int i < int (length rs) - 1")
    case False
    then have "[i..<length rs - 1] = []" by simp
    with False step show ?thesis by simp
  next
    case True
    then have "i < length rs - 1" by linarith
    then have up: "[i..<length rs - 1] = i # [i + 1..<length rs - 1]"
      by (simp add: upt_conv_Cons)
    show ?thesis
    proof (cases "rs ! i < rs ! (i + 1)")
      case v: True
      have "violations_loop rs i acc =
              violations_loop rs (i + 1)
                (acc @ [(i, i + 1, rs ! i, rs ! (i + 1), rs ! (i + 1) - rs ! i)])"
        using True v step by (simp add: Let_def)
      also have "\<dots> = (acc @ [(i, i + 1, rs ! i, rs ! (i + 1), rs ! (i + 1) - rs ! i)]) @
            map (\<lambda>i. (i, i + 1, rs ! i, rs ! (i + 1), rs ! (i + 1) - rs ! i))
              (filter (\<lambda>i. rs ! i < rs ! (i + 1)) [i + 1..<length rs - 1])"
        using "1.IH"(1)[OF True v refl] .
      finally show ?thesis
        unfolding up using v by simp
    next
      case v: False
      have "violations_loop rs i acc = violations_loop rs (i + 1) acc"
        using True v step by simp
      also have "\<dots> = acc @
            map (\<lambda>i. (i, i + 1, rs ! i, rs ! (i + 1), rs ! (i + 1) - rs ! i))
              (filter (\<lambda>i. rs ! i < rs ! (i + 1)) [i + 1..<length rs - 1])"
        using "1.IH"(2)[OF True v] .
      finally show ?thesis
        unfolding up using v by simp
    qed
  qed
qed

text \<open>
  C5. The scan records a violation for the adjacent pair \<open>(i, i + 1)\<close> exactly when
  \<open>rate[i + 1] > rate[i]\<close>, with no tolerance: the list of violations is the list of
  tuples \<open>(i, i + 1, rate[i], rate[i + 1], rate[i + 1] - rate[i])\<close> for the positions
  \<open>i\<close> of \<open>0 .. len - 2\<close> with \<open>rate[i] < rate[i + 1]\<close>, in that order. Every
  recorded severity is positive and the segment indices are strictly ascending.
\<close>

theorem violations_characterisation:
  "find_violations rs =
     map (\<lambda>i. (i, i + 1, rs ! i, rs ! (i + 1), rs ! (i + 1) - rs ! i))
       (filter (\<lambda>i. rs ! i < rs ! (i + 1)) [0..<length rs - 1])
   \<and> (\<forall>v \<in> set (find_violations rs). 0 < magnitude v)
   \<and> sorted_wrt (<) (map fst (find_violations rs))"
proof -
  let ?f = "\<lambda>i. (i, i + 1, rs ! i, rs ! (i + 1), rs ! (i + 1) - rs ! i)"
  let ?is = "filter (\<lambda>i. rs ! i < rs ! (i + 1)) [0..<length rs - 1]"
  have eq: "find_violations rs = map ?f ?is"
    by (simp add: find_violations_def violations_loop_eq)
  have pos: "\<forall>v \<in> set (find_violations rs). 0 < magnitude v"
    unfolding eq by (auto simp: magnitude_def)
  have "map fst (map ?f ?is) = ?is" by (simp add: comp_def)
  moreover have "sorted_wrt (<) ?is"
    by (rule sorted_wrt_filter) simp
  ultimately have "sorted_wrt (<) (map fst (find_violations rs))"
    unfolding eq by simp
  with eq pos show ?thesis by blast
qed

theorem violations_characterisation_witness:
  "find_violations [3/10, 1/10, 2/5, 2/5, 3/5] = [(1, 2, 1/10, 2/5, 3/10), (3, 4, 2/5, 3/5, 1/5)]
   \<and> 0 < magnitude (1, 2, 1/10, 2/5, 3/10) \<and> 0 < magnitude (3, 4, 2/5, 3/5, 1/5)"
  using violations_characterisation [of "[3/10, 1/10, 2/5, 2/5, 3/5]"]
  by (simp add: upt_conv_Cons magnitude_def)

subsection \<open>The violation score\<close>

text \<open>
  In exact arithmetic: behind its two guards \<open>calculate_rankfit_v\<close> is
  \<open>max(0, 1 - (sum of the severities) / (max rate - min rate))\<close>, and for the rates
  \<open>2/10, 5/10, 3/10, 1/10\<close> the formula gives \<open>1/4\<close>.
\<close>

lemma rankfit_v_exact_formula:
  assumes "2 \<le> length event_rates"
    and "Max (set event_rates) - Min (set event_rates) \<noteq> 0"
  shows "calculate_rankfit_v event_rates vs =
           max 0 (1 - sum_list (map magnitude vs)
                        / (Max (set event_rates) - Min (set event_rates)))"
proof -
  from assms(1) have ne: "event_rates \<noteq> []" by auto
  show ?thesis
    using assms
    by (simp add: calculate_rankfit_v_def np_max_eq [OF ne] np_min_eq [OF ne] np_sum_eq)
qed

lemma rankfit_v_exact_example:
  "find_violations [2/10, 5/10, 3/10, 1/10] = [(0, 1, 2/10, 5/10, 3/10)]"
  "calculate_rankfit_v [2/10, 5/10, 3/10, 1/10] [(0, 1, 2/10, 5/10, 3/10)] = 25/100"
  by (simp_all add: find_violations_def violations_loop_eq upt_conv_Cons
        calculate_rankfit_v_def np_max_def np_min_def np_sum_def magnitude_def)



subsection \<open>The violation score in double precision\<close>

lemma bit_length_small:
  "bit_length 0 = 0" "bit_length (Suc 0) = 1" "bit_length 2 = 2" "bit_length 3 = 2"
  "bit_length 4 = 3" "bit_length 9 = 4"
  by (simp_all add: bit_length.simps)

lemmas f64_eval =
  f64_round_def binade_def round_half_even_def bit_length_small Let_def power_int_minus

lemma violations_loop_f64_eq:
  "violations_loop_f64 rs i acc =
     acc @ map (\<lambda>i. (i, i + 1, rs ! i, rs ! (i + 1), f64_round (rs ! (i + 1) - rs ! i)))
             (filter (\<lambda>i. rs ! i < rs ! (i + 1)) [i..<length rs - 1])"
proof (induction rs i acc rule: violations_loop_f64.induct)
  case (1 rs i acc)
  note step = violations_loop_f64.simps [of rs i acc]
  show ?case
  proof (cases "int i < int (length rs) - 1")
    case False
    then have "[i..<length rs - 1] = []" by simp
    with False step show ?thesis by simp
  next
    case True
    then have "i < length rs - 1" by linarith
    then have up: "[i..<length rs - 1] = i # [i + 1..<length rs - 1]"
      by (simp add: upt_conv_Cons)
    show ?thesis
    proof (cases "rs ! i < rs ! (i + 1)")
      case v: True
      have "violations_loop_f64 rs i acc =
              violations_loop_f64 rs (i + 1)
                (acc @ [(i, i + 1, rs ! i, rs ! (i + 1), f64_round (rs ! (i + 1) - rs ! i))])"
        using True v step by (simp add: Let_def)
      also have "\<dots> =
            (acc @ [(i, i + 1, rs ! i, rs ! (i + 1), f64_round (rs ! (i + 1) - rs ! i))]) @
            map (\<lambda>i. (i, i + 1, rs ! i, rs ! (i + 1), f64_round (rs ! (i + 1) - rs ! i)))
              (filter (\<lambda>i. rs ! i < rs ! (i + 1)) [i + 1..<length rs - 1])"
        using "1.IH"(1)[OF True v refl] .
      finally show ?thesis
        unfolding up using v by simp
    next
      case v: False
      have "violations_loop_f64 rs i acc = violations_loop_f64 rs (i + 1) acc"
        using True v step by simp
      also have "\<dots> = acc @
            map (\<lambda>i. (i, i + 1, rs ! i, rs ! (i + 1), f64_round (rs ! (i + 1) - rs ! i)))
              (filter (\<lambda>i. rs ! i < rs ! (i + 1)) [i + 1..<length rs - 1])"
        using "1.IH"(2)[OF True v] .
      finally show ?thesis
        unfolding up using v by simp
    qed
  qed
qed

lemma f64_literals:
  "f64_round (2/10) = 7205759403792794 / 2 ^ 55"
  "f64_round (5/10) = 1/2"
  "f64_round (3/10) = 5404319552844595 / 2 ^ 54"
  "f64_round (1/10) = 7205759403792794 / 2 ^ 56"
  by (simp_all add: f64_eval)

lemma f64_example_steps:
  "f64_round (1/2 - 7205759403792794 / 2 ^ 55) = 5404319552844595 / 2 ^ 54"
  "f64_round (1/2 - 7205759403792794 / 2 ^ 56) = 7205759403792794 / 2 ^ 54"
  "f64_round (0 + 5404319552844595 / 2 ^ 54) = 5404319552844595 / 2 ^ 54"
  "f64_round ((5404319552844595 / 2 ^ 54) / (7205759403792794 / 2 ^ 54))
     = 6755399441055743 / 2 ^ 53"
  "f64_round (1 - 6755399441055743 / 2 ^ 53) = 1/4 + 1 / 2 ^ 53"
  by (simp_all add: f64_eval)

lemma f64_example:
  defines "a \<equiv> f64_round (2/10)" and "h \<equiv> f64_round (5/10)"
    and "b \<equiv> f64_round (3/10)" and "c \<equiv> f64_round (1/10)"
  shows "find_violations_f64 [a, h, b, c] = [(0, 1, a, h, b)]"
    and "calculate_rankfit_v_f64 [a, h, b, c] [(0, 1, a, h, b)] = 1/4 + 1 / 2 ^ 53"
proof -
  define d :: real where "d = 7205759403792794 / 2 ^ 54"
  define q :: real where "q = 6755399441055743 / 2 ^ 53"
  have vals: "a = 7205759403792794 / 2 ^ 55" "h = 1/2" "b = 5404319552844595 / 2 ^ 54"
    "c = 7205759403792794 / 2 ^ 56"
    by (simp_all only: a_def h_def b_def c_def f64_literals)
  have ord: "a < h" "\<not> h < b" "\<not> b < c"
    by (simp_all add: vals)
  have mx: "np_max [a, h, b, c] = h" and mn: "np_min [a, h, b, c] = c"
    by (simp_all add: np_max_def np_min_def vals)
  have sev: "f64_round (h - a) = b"
    by (simp only: vals f64_example_steps(1))
  have range: "f64_round (h - c) = d"
    by (simp only: vals d_def f64_example_steps(2))
  have sum: "f64_round (0 + b) = b"
    by (simp only: vals f64_example_steps(3))
  have quot: "f64_round (b / d) = q"
    by (simp only: vals d_def q_def f64_example_steps(4))
  have fin: "f64_round (1 - q) = 1/4 + 1 / 2 ^ 53"
    by (simp only: q_def f64_example_steps(5))
  have d0: "d \<noteq> 0" by (simp add: d_def)
  show "find_violations_f64 [a, h, b, c] = [(0, 1, a, h, b)]"
    by (simp add: find_violations_f64_def violations_loop_f64_eq upt_conv_Cons ord sev)
  have "np_sum_f64 [b] = b"
    using sum by (simp add: np_sum_f64_def)
  then show "calculate_rankfit_v_f64 [a, h, b, c] [(0, 1, a, h, b)] = 1/4 + 1 / 2 ^ 53"
    by (simp add: calculate_rankfit_v_f64_def magnitude_def mx mn range d0 quot fin)
qed


text \<open>
  C4 states that for the segment rates \<open>[0.2, 0.5, 0.3, 0.1]\<close> the score equals
  \<open>0.25\<close>. In the code's double arithmetic the severity is \<open>0.3\<close> and the range is
  \<open>0.4\<close>, the quotient rounds to \<open>0.75 - 2^-53\<close>, and the score is \<open>0.25 + 2^-53\<close>
  (printed \<^verbatim>\<open>0.2500000000000001\<close>), not \<open>0.25\<close>.
\<close>

theorem rankfit_v_example_not_quarter:
  "calculate_rankfit_v_f64
     [f64_round (2/10), f64_round (5/10), f64_round (3/10), f64_round (1/10)]
     (find_violations_f64
        [f64_round (2/10), f64_round (5/10), f64_round (3/10), f64_round (1/10)])
   \<noteq> 25/100"
  unfolding f64_example by simp

lemma rankfit_v_f64_formula:
  assumes "2 \<le> length event_rates"
    and "f64_round (Max (set event_rates) - Min (set event_rates)) \<noteq> 0"
    and "length vs < 8"
  shows "calculate_rankfit_v_f64 event_rates vs =
           max 0 (f64_round (1 - f64_round (np_sum_f64 (map magnitude vs)
                    / f64_round (Max (set event_rates) - Min (set event_rates)))))"
proof -
  from assms(1) have ne: "event_rates \<noteq> []" by auto
  show ?thesis
    using assms
    by (simp add: calculate_rankfit_v_f64_def np_max_eq [OF ne] np_min_eq [OF ne])
qed

text \<open>
  C4 as amended: for an event-rate sequence with at least 2 segments and nonzero range,
  \<open>calculate_rankfit_v\<close> is \<open>max(0, 1 - (sum of the severities) / (max rate - min rate))\<close>,
  in exact arithmetic and, with every operation rounded, in the code's double
  arithmetic (for fewer than 8 violations, which numpy adds in order). For the segment
  rates \<open>[0.2, 0.5, 0.3, 0.1]\<close> the violations found are exactly
  \<open>[(0, 1, 0.2, 0.5, 0.3)]\<close>, and the score is \<open>0.25 + 2^-53\<close>: it equals \<open>0.25\<close> up to
  one rounding error.
\<close>

theorem rankfit_v_formula:
  "(2 \<le> length event_rates \<and> Max (set event_rates) - Min (set event_rates) \<noteq> 0 \<longrightarrow>
      calculate_rankfit_v event_rates vs =
        max 0 (1 - sum_list (map magnitude vs)
                     / (Max (set event_rates) - Min (set event_rates))))
   \<and> (2 \<le> length event_rates
        \<and> f64_round (Max (set event_rates) - Min (set event_rates)) \<noteq> 0
        \<and> length vs < 8 \<longrightarrow>
      calculate_rankfit_v_f64 event_rates vs =
        max 0 (f64_round (1 - f64_round (np_sum_f64 (map magnitude vs)
                 / f64_round (Max (set event_rates) - Min (set event_rates))))))
   \<and> find_violations_f64
         [f64_round (2/10), f64_round (5/10), f64_round (3/10), f64_round (1/10)]
       = [(0, 1, f64_round (2/10), f64_round (5/10), f64_round (3/10))]
   \<and> calculate_rankfit_v_f64
         [f64_round (2/10), f64_round (5/10), f64_round (3/10), f64_round (1/10)]
         (find_violations_f64
            [f64_round (2/10), f64_round (5/10), f64_round (3/10), f64_round (1/10)])
       = 1/4 + 1 / 2 ^ 53
   \<and> \<bar>calculate_rankfit_v_f64
         [f64_round (2/10), f64_round (5/10), f64_round (3/10), f64_round (1/10)]
         (find_violations_f64
            [f64_round (2/10), f64_round (5/10), f64_round (3/10), f64_round (1/10)])
        - 1/4\<bar> \<le> 1 / 2 ^ 52"
proof -
  have v: "calculate_rankfit_v_f64
         [f64_round (2/10), f64_round (5/10), f64_round (3/10), f64_round (1/10)]
         (find_violations_f64
            [f64_round (2/10), f64_round (5/10), f64_round (3/10), f64_round (1/10)])
       = 1/4 + 1 / 2 ^ 53"
    unfolding f64_example ..
  have "\<bar>(1/4 + 1 / 2 ^ 53) - 1/4 :: real\<bar> \<le> 1 / 2 ^ 52" by simp
  with v rankfit_v_exact_formula [of event_rates vs]
    rankfit_v_f64_formula [of event_rates vs] f64_example(1)
  show ?thesis by (simp only: simp_thms) blast
qed

theorem rankfit_v_formula_witness:
  "2 \<le> length [1/10, 3/10, 2/10 :: real]
   \<and> Max (set [1/10, 3/10, 2/10 :: real]) - Min (set [1/10, 3/10, 2/10]) = 2/10
   \<and> calculate_rankfit_v [1/10, 3/10, 2/10] [(0, 1, 1/10, 3/10, 1/10)] = 1/2
   \<and> 2 \<le> length [1/4, 3/4, 1/2 :: real]
   \<and> f64_round (Max (set [1/4, 3/4, 1/2 :: real]) - Min (set [1/4, 3/4, 1/2])) = 1/2
   \<and> length [(0, 1, 1/4, 3/4, 1/2) :: violation] < 8
   \<and> calculate_rankfit_v_f64 [1/4, 3/4, 1/2] [(0, 1, 1/4, 3/4, 1/2)] = 0"
proof -
  have r: "f64_round (1/2) = 1/2" "f64_round 1 = 1" "f64_round 0 = 0"
    by (simp_all add: f64_eval)
  show ?thesis
    using rankfit_v_formula [of "[1/10, 3/10, 2/10]" "[(0, 1, 1/10, 3/10, 1/10)]"]
      rankfit_v_formula [of "[1/4, 3/4, 1/2]" "[(0, 1, 1/4, 3/4, 1/2)]"]
    by (simp add: magnitude_def np_sum_f64_def r)
qed

subsection \<open>Reading a result of calculate\_metrics\<close>

lemma calculate_metrics_InrD:
  assumes "calculate_metrics n_bins y_scores y_true = Inr r"
  shows "violations r = find_violations (map actual_mean (bin_stats r))"
    and "rankfit_v r = calculate_rankfit_v (map actual_mean (bin_stats r)) (violations r)"
    and "calculate_rankfit_t (map actual_mean (bin_stats r)) = Inr (rankfit_t r)"
    and "\<exists>bins. assign_bins n_bins y_scores = Inr bins \<and> length y_scores = length y_true
           \<and> bin_stats r = groupby_agg (zip y_scores (zip y_true bins))"
  using assms
  by (auto simp: calculate_metrics_def Let_def split: if_splits sum.splits)

subsection \<open>Evaluation on small inputs\<close>

lemma linspace_2: "linspace 0 1 2 = Inr [0, 1]"
  by (simp add: linspace_def upt_conv_Cons)

lemma linspace_3: "linspace 0 1 3 = Inr [0, 1/2, 1]"
  by (simp add: linspace_def upt_conv_Cons)

lemma linspace_11:
  "linspace 0 1 11 = Inr [0, 1/10, 2/10, 3/10, 4/10, 5/10, 6/10, 7/10, 8/10, 9/10, 1]"
  by (simp add: linspace_def upt_conv_Cons)

lemma quantile_1234:
  "quantile [1, 2, 3, 4] 0 = 1" "quantile [1, 2, 3, 4] (1/2) = 5/2" "quantile [1, 2, 3, 4] 1 = 4"
  by (simp_all add: quantile_def Let_def)

lemma assign_bins_1234: "assign_bins 2 [1, 2, 3, 4] = Inr [Some 1, Some 1, Some 0, Some 0]"
  by (simp add: assign_bins_def qcut_def linspace_3 quantile_1234 bins_to_cuts_def
        bin_label_def unique_def searchsorted_left_def reverse_bins_def)

lemma quantile_333:
  "quantile [3, 3, 3] 0 = 3" "quantile [3, 3, 3] (1/2) = 3" "quantile [3, 3, 3] 1 = 3"
  by (simp_all add: quantile_def Let_def)

lemma qcut_333: "qcut [3, 3, 3] 2 = Inr [None, None, None]"
  by (simp add: qcut_def linspace_3 quantile_333 bins_to_cuts_def bin_label_def unique_def
        searchsorted_left_def)

lemma cut_333: "cut [3, 3, 3] 2 = Inr [Some 0, Some 0, Some 0]"
  by (simp add: cut_def np_min_def np_max_def linspace_def upt_conv_Cons bins_to_cuts_def
        bin_label_def unique_def searchsorted_left_def)

lemma quantile_single: "quantile [7/10] q = 7/10"
  by (simp add: quantile_def Let_def)

lemma rankfit_t_two_equal: "calculate_rankfit_t [c, c] = Inr NaN"
  by (simp add: calculate_rankfit_t_def kendalltau_def neg_arange_def count_pairs_def
        index_pairs_def upt_conv_Cons)

lemma rankfit_t_two_decreasing: "calculate_rankfit_t [5/2, 0] = Inr (Fin 1)"
  by (simp add: calculate_rankfit_t_def kendalltau_def neg_arange_def count_pairs_def
        index_pairs_def upt_conv_Cons)

lemma calculate_metrics_1234_0101:
  "calculate_metrics 2 [1, 2, 3, 4] [0, 1, 0, 1] =
     Inr \<lparr>bin_stats = [\<lparr>bin = 0, actual_mean = 1/2, actual_count = 2, score_mean = 7/2\<rparr>,
                      \<lparr>bin = 1, actual_mean = 1/2, actual_count = 2, score_mean = 3/2\<rparr>],
          rankfit_v = 1, rankfit_t = NaN, violations = []\<rparr>"
  by (simp add: calculate_metrics_def assign_bins_1234 groupby_agg_def group_keys_def
        group_rows_def find_violations_def violations_loop_eq calculate_rankfit_v_def
        np_max_def np_min_def rankfit_t_two_equal)

subsection \<open>Counting index pairs\<close>

lemma set_index_pairs: "set (index_pairs n) = {(i, j). i < j \<and> j < n}"
  by (force simp: index_pairs_def)

lemma length_index_pairs: "length (index_pairs n) = (n * (n - 1)) div 2"
proof -
  have "length (index_pairs n) = sum_list (map (\<lambda>i. n - Suc i) [0..<n])"
    by (simp add: index_pairs_def length_concat comp_def)
  also have "\<dots> = (\<Sum>i<n. n - Suc i)"
    by (simp add: interv_sum_list_conv_sum_set_nat atLeast0LessThan)
  also have "\<dots> = (\<Sum>i<n. i)"
    by (rule sum.nat_diff_reindex)
  also have "\<dots> = (n * (n - 1)) div 2"
    by (metis Sum_Ico_nat atLeast0LessThan minus_nat.diff_0 mult_0)
  finally show ?thesis .
qed

lemma count_pairs_all:
  assumes "\<And>i j. i < j \<Longrightarrow> j < n \<Longrightarrow> P (i, j)"
  shows "count_pairs P n = (n * (n - 1)) div 2"
proof -
  have "filter P (index_pairs n) = index_pairs n"
    using assms by (auto simp: filter_id_conv set_index_pairs)
  then show ?thesis by (simp add: count_pairs_def length_index_pairs)
qed

subsection \<open>Constant event rates\<close>

lemma rankfit_t_constant:
  assumes "2 \<le> length event_rates" and "\<forall>r \<in> set event_rates. r = c"
  shows "calculate_rankfit_t event_rates = Inr NaN"
proof -
  let ?n = "length event_rates"
  have ytie: "count_pairs (\<lambda>(i, j). event_rates ! i = event_rates ! j) ?n
                = (?n * (?n - 1)) div 2"
    by (rule count_pairs_all) (use assms(2) in \<open>auto simp: all_set_conv_all_nth\<close>)
  have ne: "neg_arange ?n \<noteq> []" using assms(1) by (auto simp: neg_arange_def)
  have "kendalltau (neg_arange ?n) event_rates = Inr (Some NaN)"
    using ne ytie by (simp add: kendalltau_def Let_def neg_arange_def)
  then show ?thesis
    using assms(1) by (simp add: calculate_rankfit_t_def)
qed

lemma rankfit_v_constant:
  assumes "2 \<le> length event_rates" and "\<forall>r \<in> set event_rates. r = c"
  shows "calculate_rankfit_v event_rates vs = 1"
proof -
  from assms(1) have ne: "event_rates \<noteq> []" by auto
  with assms(2) have "set event_rates = {c}" by (cases event_rates) auto
  then show ?thesis
    by (simp add: calculate_rankfit_v_def np_max_eq [OF ne] np_min_eq [OF ne])
qed

text \<open>
  C1 states that a constant event-rate sequence of at least 2 segments gives
  \<open>rankfit_t = 0.5\<close> and \<open>rankfit_v = 1.0\<close>. The code gives \<open>rankfit_v = 1\<close>, but its
  \<open>rankfit_t\<close> is \<^verbatim>\<open>nan\<close> on every such input: the rank correlation of a constant
  sequence is \<^verbatim>\<open>nan\<close>, not \<^verbatim>\<open>None\<close>, so the test \<^verbatim>\<open>tau is not None\<close> lets
  \<open>(nan + 1) / 2\<close> through and the neutral value is never returned.
\<close>

theorem constant_rates_give_nan:
  assumes "calculate_metrics n_bins y_scores y_true = Inr r"
    and "2 \<le> length (bin_stats r)"
    and "\<forall>row \<in> set (bin_stats r). actual_mean row = c"
  shows "calculate_rankfit_t (map actual_mean (bin_stats r)) = Inr NaN
         \<and> rankfit_t r = NaN \<and> rankfit_v r = 1"
proof -
  let ?rates = "map actual_mean (bin_stats r)"
  have len: "2 \<le> length ?rates" using assms(2) by simp
  have const: "\<forall>x \<in> set ?rates. x = c" using assms(3) by auto
  have t: "calculate_rankfit_t ?rates = Inr NaN"
    by (rule rankfit_t_constant [OF len const])
  moreover have "rankfit_t r = NaN"
    using calculate_metrics_InrD(3) [OF assms(1)] t by simp
  moreover have "rankfit_v r = 1"
    using calculate_metrics_InrD(2) [OF assms(1)] rankfit_v_constant [OF len const] by simp
  ultimately show ?thesis by simp
qed

theorem constant_rates_give_nan_witness:
  "calculate_metrics 2 [1, 2, 3, 4] [0, 1, 0, 1] =
     Inr \<lparr>bin_stats = [\<lparr>bin = 0, actual_mean = 1/2, actual_count = 2, score_mean = 7/2\<rparr>,
                      \<lparr>bin = 1, actual_mean = 1/2, actual_count = 2, score_mean = 3/2\<rparr>],
          rankfit_v = 1, rankfit_t = NaN, violations = []\<rparr>
   \<and> calculate_rankfit_t [1/2, 1/2] = Inr NaN"
  using constant_rates_give_nan [OF calculate_metrics_1234_0101, of "1/2"]
    calculate_metrics_1234_0101
  by simp

text \<open>
  C3 states that \<open>rankfit_v\<close> and \<open>rankfit_t\<close> lie in \<open>[0, 1]\<close> for every valid input.
  On the valid input below all outcomes are 1, both segments have the event rate 1, and
  \<open>rankfit_t\<close> is \<^verbatim>\<open>nan\<close>, which is not in \<open>[0, 1]\<close>.
\<close>

theorem rankfit_t_outside_unit_interval:
  "calculate_metrics 2 [1, 2, 3, 4] [1, 1, 1, 1] =
     Inr \<lparr>bin_stats = [\<lparr>bin = 0, actual_mean = 1, actual_count = 2, score_mean = 7/2\<rparr>,
                      \<lparr>bin = 1, actual_mean = 1, actual_count = 2, score_mean = 3/2\<rparr>],
          rankfit_v = 1, rankfit_t = NaN, violations = []\<rparr>
   \<and> \<not> in_unit_interval (rankfit_t
        \<lparr>bin_stats = [\<lparr>bin = 0, actual_mean = 1, actual_count = 2, score_mean = 7/2\<rparr>,
                      \<lparr>bin = 1, actual_mean = 1, actual_count = 2, score_mean = 3/2\<rparr>],
          rankfit_v = 1, rankfit_t = NaN, violations = []\<rparr>)"
  by (simp add: calculate_metrics_def assign_bins_1234 groupby_agg_def group_keys_def
        group_rows_def find_violations_def violations_loop_eq calculate_rankfit_v_def
        np_max_def np_min_def rankfit_t_two_equal in_unit_interval_def)

subsection \<open>Input validation\<close>

lemma qcut_ValueError_iff: "qcut x q = Inl ValueError \<longleftrightarrow> q < 1"
  by (auto simp: qcut_def linspace_def bins_to_cuts_def bin_label_def Let_def
        split: if_splits)

lemma assign_bins_below_one:
  "n_bins < 1 \<Longrightarrow> assign_bins n_bins y_scores = Inl ValueError"
  by (simp add: assign_bins_def qcut_def cut_def)

text \<open>
  C2 states that every invalid input (mismatched lengths, \<open>n_bins < 1\<close>, non-binary
  outcomes, empty input) fails with an InvalidInput error. The code has no check of its
  own: outcomes that are not 0 or 1 are averaged like any other number and a result is
  returned.
\<close>

theorem non_binary_outcomes_accepted:
  "calculate_metrics 2 [1, 2, 3, 4] [0, 0, 2, 3] =
     Inr \<lparr>bin_stats = [\<lparr>bin = 0, actual_mean = 5/2, actual_count = 2, score_mean = 7/2\<rparr>,
                      \<lparr>bin = 1, actual_mean = 0, actual_count = 2, score_mean = 3/2\<rparr>],
          rankfit_v = 1, rankfit_t = Fin 1, violations = []\<rparr>"
  by (simp add: calculate_metrics_def assign_bins_1234 groupby_agg_def group_keys_def
        group_rows_def find_violations_def violations_loop_eq calculate_rankfit_v_def
        np_max_def np_min_def np_sum_def rankfit_t_two_decreasing)

text \<open>
  C2 as amended: a call with score and outcome sequences of different lengths, or with
  \<open>n_bins\<close> below 1, fails with an error (the ValueError that pandas raises) and
  produces no result. Outcome values that are not 0 or 1 are not rejected.
\<close>

theorem invalid_lengths_or_bins_fail:
  "(length y_scores \<noteq> length y_true \<longrightarrow>
      calculate_metrics n_bins y_scores y_true = Inl ValueError)
   \<and> (n_bins < 1 \<longrightarrow> calculate_metrics n_bins y_scores y_true = Inl ValueError)"
  by (simp add: calculate_metrics_def assign_bins_below_one)

theorem invalid_lengths_or_bins_fail_witness:
  "length [1, 2 :: real] \<noteq> length [0 :: int]
   \<and> calculate_metrics 10 [1, 2] [0] = Inl ValueError
   \<and> (0 :: int) < 1
   \<and> calculate_metrics 0 [1, 2] [0, 1] = Inl ValueError
   \<and> (- 3 :: int) < 1
   \<and> calculate_metrics (- 3) [1, 2] [0, 1] = Inl ValueError"
  using invalid_lengths_or_bins_fail [of "[1, 2]" "[0]" 10]
    invalid_lengths_or_bins_fail [of "[1, 2]" "[0, 1]" 0]
    invalid_lengths_or_bins_fail [of "[1, 2]" "[0, 1]" "- 3"]
  by simp

text \<open>
  An empty input is not rejected when \<open>n_bins\<close> is at least 1: the result has no
  segment.
\<close>

lemma empty_input_returns_result:
  assumes "1 \<le> n_bins"
  shows "calculate_metrics n_bins [] [] =
           Inr \<lparr>bin_stats = [], rankfit_v = 1, rankfit_t = Fin 1, violations = []\<rparr>"
proof -
  have "\<exists>qs. linspace 0 1 (n_bins + 1) = Inr qs"
    using assms by (simp add: linspace_def)
  then have "assign_bins n_bins [] = Inr []"
    using assms by (auto simp: assign_bins_def qcut_def reverse_bins_def)
  then show ?thesis
    by (simp add: calculate_metrics_def groupby_agg_def group_keys_def find_violations_def
          violations_loop_eq calculate_rankfit_v_def calculate_rankfit_t_def)
qed

subsection \<open>Identical scores\<close>

text \<open>
  C6 states that the segment counts add up to the input length for every valid input.
  With the default \<open>n_bins = 10\<close> and a single example, all quantile edges coincide,
  the one remaining edge bounds no bin, the example is labelled \<^verbatim>\<open>nan\<close> and no
  segment is left: the counts add up to 0.
\<close>

theorem single_example_is_dropped:
  "calculate_metrics 10 [7/10] [1] =
       Inr \<lparr>bin_stats = [], rankfit_v = 1, rankfit_t = Fin 1, violations = []\<rparr>
   \<and> sum_list (map actual_count
        (bin_stats \<lparr>bin_stats = [], rankfit_v = 1, rankfit_t = Fin 1, violations = []\<rparr>))
       \<noteq> length [7/10 :: real]"
  by (simp add: calculate_metrics_def assign_bins_def qcut_def linspace_11 quantile_single
        bins_to_cuts_def bin_label_def unique_def searchsorted_left_def reverse_bins_def
        groupby_agg_def group_keys_def find_violations_def violations_loop_eq
        calculate_rankfit_v_def calculate_rankfit_t_def)

text \<open>
  C8 states that identical scores make the segmenter fall back to equal-width binning
  and return a normal result. On three identical scores \<^verbatim>\<open>pd.qcut\<close> raises nothing
  and labels every example \<^verbatim>\<open>nan\<close>; the \<^verbatim>\<open>except ValueError\<close> branch is not
  entered, although \<^verbatim>\<open>pd.cut\<close> would have put the three examples into one bin, and
  the result has no segment.
\<close>

theorem fallback_not_taken_on_identical_scores:
  "qcut [3, 3, 3] 2 = Inr [None, None, None]
   \<and> cut [3, 3, 3] 2 = Inr [Some 0, Some 0, Some 0]
   \<and> assign_bins 2 [3, 3, 3] = Inr [None, None, None]
   \<and> calculate_metrics 2 [3, 3, 3] [0, 1, 0] =
       Inr \<lparr>bin_stats = [], rankfit_v = 1, rankfit_t = Fin 1, violations = []\<rparr>"
  by (simp add: qcut_333 cut_333 assign_bins_def reverse_bins_def calculate_metrics_def
        groupby_agg_def group_keys_def find_violations_def violations_loop_eq
        calculate_rankfit_v_def calculate_rankfit_t_def)

subsection \<open>A single segment\<close>

lemma sort_first_le:
  fixes xs :: "real list"
  assumes "v \<in> set xs"
  shows "sort xs ! 0 \<le> v"
proof -
  from assms have "v \<in> set (sort xs)" by simp
  then obtain k where k: "k < length (sort xs)" "sort xs ! k = v"
    unfolding in_set_conv_nth by blast
  have "sort xs ! 0 \<le> sort xs ! k"
    by (rule sorted_nth_mono) (use k in simp_all)
  with k show ?thesis by simp
qed

lemma sort_last_ge:
  fixes xs :: "real list"
  assumes "v \<in> set xs"
  shows "v \<le> sort xs ! (length xs - 1)"
proof -
  from assms have "v \<in> set (sort xs)" by simp
  then obtain k where k: "k < length (sort xs)" "sort xs ! k = v"
    unfolding in_set_conv_nth by blast
  have "sort xs ! k \<le> sort xs ! (length xs - 1)"
    by (rule sorted_nth_mono) (use k in auto)
  with k show ?thesis by simp
qed

lemma quantile_0: "quantile xs 0 = sort xs ! 0"
  by (simp add: quantile_def Let_def)

lemma quantile_1: "quantile xs 1 = sort xs ! (length xs - 1)"
  by (simp add: quantile_def Let_def)

lemma bin_label_two_edges:
  assumes "lo \<le> v" and "v \<le> hi"
  shows "bin_label [lo, hi] v = Some 0"
  using assms by (auto simp: bin_label_def searchsorted_left_def Let_def)

lemma qcut_one_bin:
  assumes "x \<noteq> []"
  shows "qcut x 1 = Inr (map (\<lambda>v. Some 0) x)"
proof -
  let ?lo = "sort x ! 0" and ?hi = "sort x ! (length x - 1)"
  have "bin_label [?lo, ?hi] v = Some 0" if "v \<in> set x" for v
    using bin_label_two_edges [OF sort_first_le [OF that] sort_last_ge [OF that]] .
  then have "map (bin_label [?lo, ?hi]) x = map (\<lambda>v. Some 0) x"
    by (intro map_cong refl)
  then have "bins_to_cuts x [?lo, ?hi] Drop = Inr (map (\<lambda>v. Some 0) x)"
    by (simp add: bins_to_cuts_def Let_def)
  then show ?thesis
    using assms by (simp add: qcut_def linspace_2 quantile_0 quantile_1)
qed

lemma reverse_bins_all_zero:
  "reverse_bins (map (\<lambda>v. Some 0) x) = map (\<lambda>v. Some 0) x"
proof (cases x)
  case Nil
  then show ?thesis by (simp add: reverse_bins_def)
next
  case (Cons a as)
  have c: "concat (map (\<lambda>b. case b of None \<Rightarrow> [] | Some k \<Rightarrow> [k]) (map (\<lambda>v. Some (0::nat)) ys))
          = replicate (length ys) 0" for ys :: "'a list"
    by (induction ys) simp_all
  have f: "(max (0::nat) ^^ n) 0 = 0" for n
    by (induction n) simp_all
  show ?thesis
    unfolding reverse_bins_def c by (simp add: Cons f)
qed

lemma assign_bins_one_bin:
  "assign_bins 1 y_scores = Inr (map (\<lambda>v. Some 0) y_scores)"
proof (cases "y_scores = []")
  case True
  then show ?thesis
    by (simp add: assign_bins_def qcut_def linspace_2 reverse_bins_def)
next
  case False
  then show ?thesis
    by (simp add: assign_bins_def qcut_one_bin reverse_bins_all_zero)
qed

lemma group_keys_all_zero:
  assumes "length y_scores = length y_true" and "y_scores \<noteq> []"
  shows "group_keys (zip y_scores (zip y_true (map (\<lambda>v. Some 0) y_scores))) = [0]"
proof -
  have "concat (map (\<lambda>(score, actual, b). case b of None \<Rightarrow> [] | Some k \<Rightarrow> [k])
           (zip xs (zip ys (map (\<lambda>v. Some (0::nat)) xs)))) = replicate (length xs) 0"
    if "length xs = length ys" for xs :: "real list" and ys :: "int list"
    using that by (induction xs ys rule: list_induct2) simp_all
  moreover have "remdups (replicate n (0::nat)) = (if n = 0 then [] else [0])" for n
    by (induction n) auto
  moreover from assms have "y_true \<noteq> []" by auto
  ultimately show ?thesis
    using assms by (simp add: group_keys_def)
qed

lemma few_segments_perfect:
  assumes "calculate_metrics n_bins y_scores y_true = Inr r" and "length (bin_stats r) < 2"
  shows "violations r = [] \<and> rankfit_v r = 1 \<and> rankfit_t r = Fin 1"
proof -
  let ?rates = "map actual_mean (bin_stats r)"
  have len: "length ?rates < 2" using assms(2) by simp
  then have "[0..<length ?rates - 1] = []" by simp
  then have "find_violations ?rates = []"
    using violations_loop_eq [of ?rates 0 "[]"] by (simp add: find_violations_def)
  then have "violations r = []"
    using calculate_metrics_InrD(1) [OF assms(1)] by simp
  moreover have "rankfit_v r = 1"
    using calculate_metrics_InrD(2) [OF assms(1)] len by (simp add: calculate_rankfit_v_def)
  moreover have "rankfit_t r = Fin 1"
    using calculate_metrics_InrD(3) [OF assms(1)] len by (simp add: calculate_rankfit_t_def)
  ultimately show ?thesis by simp
qed

lemma calculate_metrics_total_one_bin:
  assumes "length y_scores = length y_true"
  shows "\<exists>r. calculate_metrics 1 y_scores y_true = Inr r
           \<and> bin_stats r = groupby_agg (zip y_scores (zip y_true (map (\<lambda>v. Some 0) y_scores)))"
proof -
  let ?stats = "groupby_agg (zip y_scores (zip y_true (map (\<lambda>v. Some 0) y_scores)))"
  have "length ?stats < 2"
  proof (cases "y_scores = []")
    case True
    then show ?thesis by (simp add: groupby_agg_def group_keys_def)
  next
    case False
    then show ?thesis
      using assms by (simp add: groupby_agg_def group_keys_all_zero)
  qed
  then have "calculate_rankfit_t (map actual_mean ?stats) = Inr (Fin 1)"
    by (simp add: calculate_rankfit_t_def)
  then show ?thesis
    using assms by (simp add: calculate_metrics_def assign_bins_one_bin Let_def)
qed

text \<open>
  C9. Whenever the result has exactly one segment, \<open>violations\<close> is empty and both scores
  have their perfect value 1. Every call with \<open>n_bins = 1\<close> (and sequences of equal
  length) returns such a result: one segment when the input is non-empty, no violations,
  \<open>rankfit_v = 1\<close> and \<open>rankfit_t = 1\<close>.
\<close>

theorem single_segment_perfect:
  "(calculate_metrics n_bins y_scores y_true = Inr r \<and> length (bin_stats r) = 1 \<longrightarrow>
      violations r = [] \<and> rankfit_v r = 1 \<and> rankfit_t r = Fin 1)
   \<and> (length y_scores = length y_true \<longrightarrow>
        (\<exists>r1. calculate_metrics 1 y_scores y_true = Inr r1
           \<and> (y_scores \<noteq> [] \<longrightarrow> length (bin_stats r1) = 1)
           \<and> violations r1 = [] \<and> rankfit_v r1 = 1 \<and> rankfit_t r1 = Fin 1))"
proof (rule conjI)
  show "calculate_metrics n_bins y_scores y_true = Inr r \<and> length (bin_stats r) = 1 \<longrightarrow>
      violations r = [] \<and> rankfit_v r = 1 \<and> rankfit_t r = Fin 1"
    using few_segments_perfect [of n_bins y_scores y_true r] by simp
next
  show "length y_scores = length y_true \<longrightarrow>
        (\<exists>r1. calculate_metrics 1 y_scores y_true = Inr r1
           \<and> (y_scores \<noteq> [] \<longrightarrow> length (bin_stats r1) = 1)
           \<and> violations r1 = [] \<and> rankfit_v r1 = 1 \<and> rankfit_t r1 = Fin 1)"
  proof
    assume len: "length y_scores = length y_true"
    from calculate_metrics_total_one_bin [OF len] obtain r1 where
      r1: "calculate_metrics 1 y_scores y_true = Inr r1"
        "bin_stats r1 = groupby_agg (zip y_scores (zip y_true (map (\<lambda>v. Some 0) y_scores)))"
      by blast
    have n: "length (bin_stats r1) = 1" if "y_scores \<noteq> []"
      using that len by (simp add: r1(2) groupby_agg_def group_keys_all_zero)
    have "length (bin_stats r1) < 2"
    proof (cases "y_scores = []")
      case True
      then show ?thesis by (simp add: r1(2) groupby_agg_def group_keys_def)
    next
      case False
      then show ?thesis using n by simp
    qed
    from few_segments_perfect [OF r1(1) this] n r1(1)
    show "\<exists>r1. calculate_metrics 1 y_scores y_true = Inr r1
             \<and> (y_scores \<noteq> [] \<longrightarrow> length (bin_stats r1) = 1)
             \<and> violations r1 = [] \<and> rankfit_v r1 = 1 \<and> rankfit_t r1 = Fin 1"
      by blast
  qed
qed

lemma quantile_1112:
  "quantile [1, 1, 1, 2] 0 = 1" "quantile [1, 1, 1, 2] (1/2) = 1" "quantile [1, 1, 1, 2] 1 = 2"
  by (simp_all add: quantile_def Let_def)

lemma calculate_metrics_1112:
  "calculate_metrics 2 [1, 1, 1, 2] [0, 1, 0, 1] =
     Inr \<lparr>bin_stats = [\<lparr>bin = 0, actual_mean = 1/2, actual_count = 4, score_mean = 5/4\<rparr>],
          rankfit_v = 1, rankfit_t = Fin 1, violations = []\<rparr>"
  by (simp add: calculate_metrics_def assign_bins_def qcut_def linspace_3 quantile_1112
        bins_to_cuts_def bin_label_def unique_def searchsorted_left_def reverse_bins_def
        groupby_agg_def group_keys_def group_rows_def find_violations_def violations_loop_eq
        calculate_rankfit_v_def calculate_rankfit_t_def)

theorem single_segment_perfect_witness:
  "calculate_metrics 2 [1, 1, 1, 2] [0, 1, 0, 1] =
     Inr \<lparr>bin_stats = [\<lparr>bin = 0, actual_mean = 1/2, actual_count = 4, score_mean = 5/4\<rparr>],
          rankfit_v = 1, rankfit_t = Fin 1, violations = []\<rparr>
   \<and> length [1, 2 :: real] = length [0, 1 :: int]
   \<and> calculate_metrics 1 [1, 2] [0, 1] =
     Inr \<lparr>bin_stats = [\<lparr>bin = 0, actual_mean = 1/2, actual_count = 2, score_mean = 3/2\<rparr>],
          rankfit_v = 1, rankfit_t = Fin 1, violations = []\<rparr>"
  using single_segment_perfect [of 2 "[1, 1, 1, 2]" "[0, 1, 0, 1]"
      "\<lparr>bin_stats = [\<lparr>bin = 0, actual_mean = 1/2, actual_count = 4, score_mean = 5/4\<rparr>],
          rankfit_v = 1, rankfit_t = Fin 1, violations = []\<rparr>"]
    single_segment_perfect [THEN conjunct2, of "[1, 2]" "[0, 1]"]
    calculate_metrics_1112
  by (simp add: calculate_metrics_def assign_bins_one_bin
        groupby_agg_def group_keys_def group_rows_def find_violations_def violations_loop_eq
        calculate_rankfit_v_def calculate_rankfit_t_def)

subsection \<open>Segment order\<close>

lemma searchsorted_left_mono:
  assumes "v \<le> w"
  shows "searchsorted_left bins v \<le> searchsorted_left bins w"
  using assms unfolding searchsorted_left_def
  by (induction bins) auto

lemma bin_label_mono:
  assumes "bins \<noteq> []" and "bins ! 0 \<le> v" and "v \<le> w"
    and "bin_label bins v = Some a" and "bin_label bins w = Some b"
  shows "a \<le> b"
proof -
  obtain b0 rest where bins: "bins = b0 # rest" using assms(1) by (cases bins) auto
  let ?ids = "\<lambda>u. if u = bins ! 0 then 1 else searchsorted_left bins u"
  have pos: "1 \<le> searchsorted_left bins u" if "b0 < u" for u
    using that by (simp add: bins searchsorted_left_def)
  have "?ids v \<le> ?ids w"
  proof (cases "v = b0")
    case True
    then show ?thesis using assms(3) pos [of w] by (auto simp: bins)
  next
    case False
    with assms(2,3) have "b0 < v" "w \<noteq> b0" by (auto simp: bins)
    then show ?thesis using searchsorted_left_mono [OF assms(3), of bins] by (simp add: bins)
  qed
  moreover have "a = ?ids v - 1" "b = ?ids w - 1"
    using assms(4,5) by (auto simp: bin_label_def Let_def split: if_splits)
  ultimately show ?thesis by simp
qed

lemma unique_from_nth0: "x \<notin> set seen \<Longrightarrow> unique_from seen (x # xs) ! 0 = x"
  by simp

lemma unique_Cons_nth0: "unique (x # xs) ! 0 = x"
  by (simp add: unique_def)

lemma unique_eq_Nil_iff: "unique xs = [] \<longleftrightarrow> xs = []"
  by (cases xs) (simp_all add: unique_def)

lemma linspace_0_1_cases:
  assumes "linspace 0 1 num = Inr qs"
  shows "qs = [] \<or> (\<exists>rest. qs = 0 # rest)"
proof (cases "num \<le> 0")
  case True
  with assms show ?thesis by (auto simp: linspace_def split: if_splits)
next
  case False
  then have "[0..<nat num] = 0 # [1..<nat num]" by (simp add: upt_conv_Cons)
  with assms False show ?thesis by (auto simp: linspace_def split: if_splits)
qed

lemma qcut_InrD:
  assumes "qcut x q = Inr raw" and "x \<noteq> []"
  shows "\<exists>bins. bins \<noteq> [] \<and> bins ! 0 = sort x ! 0 \<and> raw = map (bin_label bins) x"
proof -
  from assms obtain qs where qs: "linspace 0 1 (q + 1) = Inr qs"
    and btc: "bins_to_cuts x (map (quantile x) qs) Drop = Inr raw"
    by (auto simp: qcut_def split: sum.splits if_splits)
  from linspace_0_1_cases [OF qs] show ?thesis
  proof
    assume "qs = []"
    with btc show ?thesis by (simp add: bins_to_cuts_def unique_def)
  next
    assume "\<exists>rest. qs = 0 # rest"
    then obtain rest where "qs = 0 # rest" ..
    then have b0: "map (quantile x) qs = sort x ! 0 # map (quantile x) rest"
      by (simp add: quantile_0)
    let ?edges = "sort x ! 0 # map (quantile x) rest"
    let ?dups = "length (unique ?edges) < length ?edges \<and> length ?edges \<noteq> 2"
    let ?bins = "if ?dups then unique ?edges else ?edges"
    have "?bins \<noteq> []" by (simp add: unique_eq_Nil_iff)
    moreover have "?bins ! 0 = sort x ! 0" by (simp add: unique_Cons_nth0)
    moreover have "raw = map (bin_label ?bins) x"
      using btc \<open>?bins \<noteq> []\<close> unfolding b0 bins_to_cuts_def Let_def
      by (simp split: if_splits)
    ultimately show ?thesis by blast
  qed
qed

lemma qcut_monotone:
  assumes "qcut x q = Inr raw" and "i < length x" and "j < length x"
    and "x ! i \<le> x ! j" and "raw ! i = Some a" and "raw ! j = Some b"
  shows "a \<le> b"
proof -
  from assms(2) have ne: "x \<noteq> []" by auto
  from qcut_InrD [OF assms(1) ne] obtain bins where
    bins: "bins \<noteq> []" "bins ! 0 = sort x ! 0" "raw = map (bin_label bins) x"
    by blast
  have "bins ! 0 \<le> x ! i"
    using assms(2) by (simp add: bins(2) sort_first_le)
  from bin_label_mono [OF bins(1) this assms(4)] assms(2,3,5,6) show ?thesis
    by (simp add: bins(3))
qed

lemma qcut_length: "qcut x q = Inr raw \<Longrightarrow> length raw = length x"
  by (auto simp: qcut_def bins_to_cuts_def Let_def split: sum.splits if_splits)

lemma fold_max_ge:
  fixes k :: nat
  assumes "a \<in> set (k # ks)"
  shows "a \<le> fold max ks k"
proof -
  have "fold max ks k = Max (set (k # ks))"
    by (metis Max.set_eq_fold)
  with assms show ?thesis by (metis List.finite_set Max_ge)
qed

lemma reverse_bins_nth:
  assumes "i < length raw" and "reverse_bins raw ! i = Some a'"
  shows "\<exists>a. raw ! i = Some a \<and> a \<le> a' + a \<and>
           (\<forall>j b'. j < length raw \<longrightarrow> reverse_bins raw ! j = Some b' \<longrightarrow>
              (\<exists>b. raw ! j = Some b \<and> b' + b = a' + a))"
proof -
  let ?labels = "concat (map (\<lambda>b. case b of None \<Rightarrow> [] | Some k \<Rightarrow> [k]) raw)"
  have mem: "c \<in> set ?labels" if "j < length raw" "raw ! j = Some c" for j c
    using that by (force simp: in_set_conv_nth)
  show ?thesis
  proof (cases ?labels)
    case Nil
    with assms show ?thesis by (simp add: reverse_bins_def)
  next
    case (Cons k ks)
    let ?m = "fold max ks k"
    have rb: "reverse_bins raw = map (map_option (\<lambda>b. ?m - b)) raw"
      by (simp add: reverse_bins_def Cons)
    have D: "\<exists>c. raw ! j = Some c \<and> c \<le> ?m \<and> c' = ?m - c"
      if "j < length raw" "reverse_bins raw ! j = Some c'" for j c'
    proof -
      from that obtain c where c: "raw ! j = Some c" "c' = ?m - c"
        by (auto simp: rb)
      from mem [OF that(1) c(1)] have "c \<le> ?m"
        using fold_max_ge [of c k ks] by (simp add: Cons)
      with c show ?thesis by simp
    qed
    from D [OF assms] obtain a where a: "raw ! i = Some a" "a \<le> ?m" "a' = ?m - a" by blast
    have "\<exists>b. raw ! j = Some b \<and> b' + b = a' + a"
      if "j < length raw" "reverse_bins raw ! j = Some b'" for j b'
      using D [OF that] a by auto
    with a show ?thesis by auto
  qed
qed

lemma assign_bins_InrD:
  assumes "assign_bins n_bins y_scores = Inr bins"
  shows "\<exists>raw. qcut y_scores n_bins = Inr raw \<and> bins = reverse_bins raw"
proof (cases "qcut y_scores n_bins")
  case (Inl e)
  then show ?thesis
    using assms qcut_ValueError_iff [of y_scores n_bins]
    by (cases e) (auto simp: assign_bins_def cut_def)
next
  case (Inr raw)
  then show ?thesis using assms by (simp add: assign_bins_def)
qed

lemma reverse_bins_length: "length (reverse_bins raw) = length raw"
  by (simp add: reverse_bins_def split: list.splits)

lemma assign_bins_length: "assign_bins n_bins y_scores = Inr bins \<Longrightarrow> length bins = length y_scores"
  using assign_bins_InrD qcut_length reverse_bins_length by metis

lemma assign_bins_order:
  assumes "assign_bins n_bins y_scores = Inr bins"
    and "i < length y_scores" and "j < length y_scores"
    and "bins ! i = Some a" and "bins ! j = Some b" and "a < b"
  shows "y_scores ! j < y_scores ! i"
proof (rule ccontr)
  assume "\<not> y_scores ! j < y_scores ! i"
  then have le: "y_scores ! i \<le> y_scores ! j" by simp
  from assign_bins_InrD [OF assms(1)] obtain raw where
    raw: "qcut y_scores n_bins = Inr raw" "bins = reverse_bins raw" by blast
  have len: "length raw = length y_scores" by (rule qcut_length [OF raw(1)])
  from reverse_bins_nth [of i raw a] assms(2,4) len raw(2)
  obtain a0 where a0: "raw ! i = Some a0"
    and rest: "\<And>j b'. j < length raw \<Longrightarrow> reverse_bins raw ! j = Some b' \<Longrightarrow>
              (\<exists>b. raw ! j = Some b \<and> b' + b = a + a0)"
    by auto
  from rest [of j b] assms(3,5) len raw(2)
  obtain b0 where b0: "raw ! j = Some b0" "b + b0 = a + a0" by auto
  from qcut_monotone [OF raw(1) assms(2,3) le a0 b0(1)] have "a0 \<le> b0" .
  with b0(2) assms(6) show False by simp
qed

lemma group_keys_strict: "sorted_wrt (<) (group_keys df)"
  by (simp add: group_keys_def strict_sorted_iff)

lemma set_group_keys:
  "set (group_keys df) = {k. \<exists>score actual. (score, actual, Some k) \<in> set df}"
  by (force simp: group_keys_def split: option.splits)

lemma bin_groupby_agg: "map bin (groupby_agg df) = group_keys df"
  by (simp add: groupby_agg_def comp_def Let_def)

lemma set_segment_scores:
  assumes "assign_bins n_bins y_scores = Inr bins"
  shows "set (segment_scores n_bins y_scores k)
           = {y_scores ! i | i. i < length y_scores \<and> bins ! i = Some k}"
proof -
  have len: "length bins = length y_scores" by (rule assign_bins_length [OF assms])
  have "set (segment_scores n_bins y_scores k)
          = fst ` {p \<in> set (zip y_scores bins). snd p = Some k}"
    by (auto simp: segment_scores_def assms)
  also have "\<dots> = {y_scores ! i | i. i < length y_scores \<and> bins ! i = Some k}"
    using len by (force simp: set_zip)
  finally show ?thesis .
qed

lemma segment_nonempty:
  assumes "assign_bins n_bins y_scores = Inr bins"
    and "length y_scores = length y_true"
    and "k \<in> set (group_keys (zip y_scores (zip y_true bins)))"
  shows "segment_scores n_bins y_scores k \<noteq> []"
proof -
  have len: "length bins = length y_scores" by (rule assign_bins_length [OF assms(1)])
  from assms(3) obtain score actual where
    "(score, actual, Some k) \<in> set (zip y_scores (zip y_true bins))"
    by (auto simp: set_group_keys)
  then obtain i where "i < length y_scores" "bins ! i = Some k"
    using len assms(2) by (auto simp: set_zip)
  then have "y_scores ! i \<in> set (segment_scores n_bins y_scores k)"
    unfolding set_segment_scores [OF assms(1)] by blast
  then show ?thesis by auto
qed

text \<open>
  C7 as amended: in every result with at least two segments, the largest score of the
  last segment is at most the smallest score of segment 0 (the first row of
  \<^verbatim>\<open>bin_stats\<close>).
\<close>

theorem reorientation_order:
  assumes "calculate_metrics n_bins y_scores y_true = Inr r"
    and "2 \<le> length (bin_stats r)"
  shows "Max (set (segment_scores n_bins y_scores (bin (last (bin_stats r)))))
           \<le> Min (set (segment_scores n_bins y_scores (bin (hd (bin_stats r)))))"
proof -
  from calculate_metrics_InrD(4) [OF assms(1)] obtain bins where
    bins: "assign_bins n_bins y_scores = Inr bins" "length y_scores = length y_true"
      "bin_stats r = groupby_agg (zip y_scores (zip y_true bins))"
    by blast
  let ?df = "zip y_scores (zip y_true bins)"
  let ?keys = "group_keys ?df"
  have keys: "map bin (bin_stats r) = ?keys" by (simp add: bins(3) bin_groupby_agg)
  then have klen: "length ?keys = length (bin_stats r)" by (metis length_map)
  with assms(2) have ne: "bin_stats r \<noteq> []" "?keys \<noteq> []" by auto
  let ?first = "bin (hd (bin_stats r))" and ?last = "bin (last (bin_stats r))"
  have first: "?first = ?keys ! 0"
    using ne keys by (metis hd_conv_nth hd_map)
  have last: "?last = ?keys ! (length ?keys - 1)"
    using ne keys by (metis last_conv_nth last_map)
  have "?keys ! 0 < ?keys ! (length ?keys - 1)"
    by (rule sorted_wrt_nth_less [OF group_keys_strict]) (use assms(2) klen in simp_all)
  then have lt: "?first < ?last" by (simp add: first last)
  have "?first \<in> set ?keys" "?last \<in> set ?keys"
    using ne by (simp_all add: first last)
  then have nonempty: "segment_scores n_bins y_scores ?first \<noteq> []"
      "segment_scores n_bins y_scores ?last \<noteq> []"
    using segment_nonempty [OF bins(1,2)] by blast+
  have "t \<le> s"
    if "t \<in> set (segment_scores n_bins y_scores ?last)"
      and "s \<in> set (segment_scores n_bins y_scores ?first)" for s t
  proof -
    from that obtain i j where
      "i < length y_scores" "bins ! i = Some ?first" "s = y_scores ! i"
      "j < length y_scores" "bins ! j = Some ?last" "t = y_scores ! j"
      unfolding set_segment_scores [OF bins(1)] by blast
    with assign_bins_order [OF bins(1) _ _ _ _ lt, of i j] show ?thesis by simp
  qed
  then show ?thesis
    using nonempty by simp
qed


theorem reorientation_order_witness:
  "calculate_metrics 2 [1, 2, 3, 4] [0, 1, 0, 1] =
     Inr \<lparr>bin_stats = [\<lparr>bin = 0, actual_mean = 1/2, actual_count = 2, score_mean = 7/2\<rparr>,
                      \<lparr>bin = 1, actual_mean = 1/2, actual_count = 2, score_mean = 3/2\<rparr>],
          rankfit_v = 1, rankfit_t = NaN, violations = []\<rparr>
   \<and> segment_scores 2 [1, 2, 3, 4] 0 = [3, 4]
   \<and> segment_scores 2 [1, 2, 3, 4] 1 = [1, 2]
   \<and> Max (set (segment_scores 2 [1, 2, 3, 4] 1)) \<le> Min (set (segment_scores 2 [1, 2, 3, 4] 0))"
  using reorientation_order [OF calculate_metrics_1234_0101] calculate_metrics_1234_0101
  by (simp add: segment_scores_def assign_bins_1234)

lemma calculate_metrics_12_one_bin:
  "calculate_metrics 1 [1, 2] [0, 1] =
     Inr \<lparr>bin_stats = [\<lparr>bin = 0, actual_mean = 1/2, actual_count = 2, score_mean = 3/2\<rparr>],
          rankfit_v = 1, rankfit_t = Fin 1, violations = []\<rparr>"
  by (simp add: calculate_metrics_def assign_bins_one_bin
        groupby_agg_def group_keys_def group_rows_def find_violations_def violations_loop_eq
        calculate_rankfit_v_def calculate_rankfit_t_def)

text \<open>
  C7 states the order for every segmentation. With a single segment, segment 0 is also
  the last segment, and it holds scores that differ: its smallest score is below its
  largest.
\<close>

theorem single_segment_not_ordered:
  "calculate_metrics 1 [1, 2] [0, 1] =
     Inr \<lparr>bin_stats = [\<lparr>bin = 0, actual_mean = 1/2, actual_count = 2, score_mean = 3/2\<rparr>],
          rankfit_v = 1, rankfit_t = Fin 1, violations = []\<rparr>
   \<and> segment_scores 1 [1, 2] 0 = [1, 2]
   \<and> \<not> Max (set (segment_scores 1 [1, 2] (bin (last (bin_stats
          \<lparr>bin_stats = [\<lparr>bin = 0, actual_mean = 1/2, actual_count = 2, score_mean = 3/2\<rparr>],
           rankfit_v = 1, rankfit_t = Fin 1, violations = []\<rparr>)))))
        \<le> Min (set (segment_scores 1 [1, 2] (bin (hd (bin_stats
          \<lparr>bin_stats = [\<lparr>bin = 0, actual_mean = 1/2, actual_count = 2, score_mean = 3/2\<rparr>],
           rankfit_v = 1, rankfit_t = Fin 1, violations = []\<rparr>)))))"
  by (simp add: calculate_metrics_12_one_bin segment_scores_def assign_bins_one_bin)

subsection \<open>Ranges of the two scores, and totality\<close>

lemma find_violations_positive:
  assumes "v \<in> set (find_violations rs)"
  shows "0 < magnitude v"
  using assms by (auto simp: find_violations_def violations_loop_eq magnitude_def)

lemma rankfit_v_bounds:
  assumes "\<forall>v \<in> set vs. 0 \<le> magnitude v"
  shows "0 \<le> calculate_rankfit_v event_rates vs \<and> calculate_rankfit_v event_rates vs \<le> 1"
proof (cases "length event_rates < 2")
  case True
  then show ?thesis by (simp add: calculate_rankfit_v_def)
next
  case False
  then have ne: "event_rates \<noteq> []" by auto
  have "Min (set event_rates) \<le> Max (set event_rates)"
    using ne by simp
  moreover have "0 \<le> sum_list (map magnitude vs)"
    by (rule sum_list_nonneg) (use assms in auto)
  ultimately show ?thesis
    by (simp add: calculate_rankfit_v_def np_max_eq [OF ne] np_min_eq [OF ne] np_sum_eq)
qed

lemma kendalltau_neg_arange:
  "kendalltau (neg_arange (length event_rates)) event_rates = Inr (Some NaN)
   \<or> (\<exists>tau. - 1 \<le> tau \<and> tau \<le> 1
         \<and> kendalltau (neg_arange (length event_rates)) event_rates = Inr (Some (Fin tau)))"
  by (auto simp: kendalltau_def Let_def neg_arange_def)

lemma rankfit_t_total:
  "calculate_rankfit_t event_rates = Inr NaN
   \<or> (\<exists>t. 0 \<le> t \<and> t \<le> 1 \<and> calculate_rankfit_t event_rates = Inr (Fin t))"
proof (cases "length event_rates < 2")
  case True
  then show ?thesis by (simp add: calculate_rankfit_t_def)
next
  case False
  from kendalltau_neg_arange [of event_rates] show ?thesis
  proof
    assume "kendalltau (neg_arange (length event_rates)) event_rates = Inr (Some NaN)"
    with False show ?thesis by (simp add: calculate_rankfit_t_def)
  next
    assume "\<exists>tau. - 1 \<le> tau \<and> tau \<le> 1
         \<and> kendalltau (neg_arange (length event_rates)) event_rates = Inr (Some (Fin tau))"
    then obtain tau where "- 1 \<le> tau" "tau \<le> 1"
      "kendalltau (neg_arange (length event_rates)) event_rates = Inr (Some (Fin tau))"
      by blast
    with False have "0 \<le> (tau + 1) / 2 \<and> (tau + 1) / 2 \<le> 1
        \<and> calculate_rankfit_t event_rates = Inr (Fin ((tau + 1) / 2))"
      by (simp add: calculate_rankfit_t_def)
    then show ?thesis by blast
  qed
qed

lemma qcut_total:
  assumes "1 \<le> q"
  shows "\<exists>raw. qcut x q = Inr raw"
proof -
  have "[0..<nat (q + 1)] \<noteq> []" using assms by simp
  then show ?thesis
    using assms
    by (auto simp: qcut_def linspace_def bins_to_cuts_def Let_def unique_eq_Nil_iff)
qed

lemma calculate_metrics_total:
  assumes "length y_scores = length y_true" and "1 \<le> n_bins"
  shows "\<exists>r. calculate_metrics n_bins y_scores y_true = Inr r"
proof -
  from qcut_total [OF assms(2)] obtain raw where "qcut y_scores n_bins = Inr raw" ..
  then have ab: "assign_bins n_bins y_scores = Inr (reverse_bins raw)"
    by (simp add: assign_bins_def)
  let ?rates = "map actual_mean (groupby_agg (zip y_scores (zip y_true (reverse_bins raw))))"
  from rankfit_t_total [of ?rates] obtain t where "calculate_rankfit_t ?rates = Inr t"
    by blast
  then show ?thesis
    using assms(1) by (simp add: calculate_metrics_def ab Let_def)
qed

lemma result_bounds:
  assumes "calculate_metrics n_bins y_scores y_true = Inr r"
  shows "0 \<le> rankfit_v r \<and> rankfit_v r \<le> 1
         \<and> (rankfit_t r = NaN \<or> in_unit_interval (rankfit_t r))"
proof -
  let ?rates = "map actual_mean (bin_stats r)"
  have "\<forall>v \<in> set (violations r). 0 \<le> magnitude v"
    using calculate_metrics_InrD(1) [OF assms] find_violations_positive [of _ ?rates]
    by (auto simp: less_imp_le)
  from rankfit_v_bounds [OF this, of ?rates]
  have v: "0 \<le> rankfit_v r \<and> rankfit_v r \<le> 1"
    using calculate_metrics_InrD(2) [OF assms] by simp
  have "rankfit_t r = NaN \<or> in_unit_interval (rankfit_t r)"
    using rankfit_t_total [of ?rates] calculate_metrics_InrD(3) [OF assms]
    by (auto simp: in_unit_interval_def)
  with v show ?thesis by simp
qed

subsection \<open>Identical scores in general\<close>

text \<open>
  Whenever all scores are equal and \<open>n_bins\<close> is at least 2, every example is labelled
  \<^verbatim>\<open>nan\<close> and the result has no segment.
\<close>

lemma set_unique_from: "set (unique_from seen xs) = set xs - set seen"
  by (induction seen xs rule: unique_from.induct) auto

lemma set_unique: "set (unique xs) = set xs"
  by (simp add: unique_def set_unique_from)

lemma unique_replicate: "unique (replicate (Suc n) c) = [c]"
proof -
  have "unique_from [c] (replicate n c) = []" for n
    by (induction n) simp_all
  then show ?thesis by (simp add: unique_def)
qed

lemma sort_constant_nth:
  fixes xs :: "real list"
  assumes "\<forall>s \<in> set xs. s = c" and "k < length xs"
  shows "sort xs ! k = c"
proof -
  have "sort xs ! k \<in> set (sort xs)" using assms(2) by (intro nth_mem) simp
  with assms(1) show ?thesis by simp
qed

lemma quantile_constant:
  assumes "\<forall>s \<in> set xs. s = c" and "xs \<noteq> []" and "0 \<le> p" and "p \<le> 1"
  shows "quantile xs p = c"
proof -
  let ?n = "length xs"
  let ?pos = "p * real (?n - 1)"
  let ?lo = "nat \<lfloor>?pos\<rfloor>"
  have "?pos \<le> real (?n - 1)"
    using assms(3,4) by (simp add: mult_left_le_one_le)
  then have "\<lfloor>?pos\<rfloor> \<le> int (?n - 1)" by linarith
  then have lo: "?lo < ?n" using assms(2) by (cases xs) auto
  have hi: "min (?lo + 1) (?n - 1) < ?n" using assms(2) by (cases xs) auto
  show ?thesis
    using sort_constant_nth [OF assms(1) lo] sort_constant_nth [OF assms(1) hi]
    by (simp add: quantile_def Let_def)
qed

lemma linspace_0_1_Inr:
  assumes "0 \<le> q"
  shows "\<exists>qs. linspace 0 1 (q + 1) = Inr qs \<and> length qs = nat q + 1
           \<and> (\<forall>p \<in> set qs. 0 \<le> p \<and> p \<le> 1)"
proof -
  have "0 \<le> real i / real_of_int q \<and> real i / real_of_int q \<le> 1" if "i < nat (q + 1)" for i
  proof (cases "q = 0")
    case True
    then show ?thesis by simp
  next
    case False
    with assms have "0 < q" by simp
    moreover from that assms have "real i \<le> real_of_int q" by linarith
    ultimately show ?thesis by (simp add: divide_le_eq_1)
  qed
  then show ?thesis
    using assms by (auto simp: linspace_def nat_add_distrib)
qed

lemma qcut_identical:
  assumes "\<forall>s \<in> set x. s = c" and "x \<noteq> []" and "2 \<le> q"
  shows "qcut x q = Inr (map (\<lambda>v. None) x)"
proof -
  from assms(3) have q0: "0 \<le> q" by simp
  from linspace_0_1_Inr [OF q0] obtain qs where
    qs: "linspace 0 1 (q + 1) = Inr qs" "length qs = nat q + 1"
      "\<forall>p \<in> set qs. 0 \<le> p \<and> p \<le> 1"
    by blast
  have "map (quantile x) qs = map (\<lambda>p. c) qs"
    by (rule map_cong [OF refl]) (use qs(3) assms(1,2) in \<open>simp add: quantile_constant\<close>)
  then have bins0: "map (quantile x) qs = replicate (Suc (nat q)) c"
    by (simp add: map_replicate_const qs(2))
  have lbl: "bin_label [c] v = None" if "v \<in> set x" for v
    using that assms(1) by (simp add: bin_label_def)
  have nq: "nat q \<noteq> Suc 0" using assms(3) by linarith
  have "map (bin_label [c]) x = map (\<lambda>v. None) x"
    by (rule map_cong [OF refl]) (rule lbl)
  then have "bins_to_cuts x (replicate (Suc (nat q)) c) Drop = Inr (map (\<lambda>v. None) x)"
    using nq assms(3) unfolding bins_to_cuts_def Let_def unique_replicate
    by (simp del: replicate.simps)
  then show ?thesis
    using assms(2,3) by (simp add: qcut_def qs(1) bins0)
qed

lemma reverse_bins_all_None: "reverse_bins (map (\<lambda>v. None) x) = map (\<lambda>v. None) x"
proof -
  have c: "concat (map (\<lambda>b. case b of None \<Rightarrow> [] | Some k \<Rightarrow> [k]) (map (\<lambda>v. None) ys)) = []"
    for ys :: "'a list"
    by (induction ys) simp_all
  show ?thesis unfolding reverse_bins_def c by simp
qed

lemma group_keys_all_None:
  "group_keys (zip y_scores (zip y_true (map (\<lambda>v. None) y_scores))) = []"
proof -
  have c: "concat (map (\<lambda>(score, actual, b). case b of None \<Rightarrow> [] | Some k \<Rightarrow> [k])
          (zip y_scores (zip y_true (map (\<lambda>v. None) y_scores)))) = []"
    by (auto simp: set_zip)
  show ?thesis unfolding group_keys_def c by simp
qed

lemma identical_scores_no_segments:
  assumes "\<forall>s \<in> set y_scores. s = c" and "y_scores \<noteq> []"
    and "length y_scores = length y_true" and "2 \<le> n_bins"
  shows "calculate_metrics n_bins y_scores y_true =
           Inr \<lparr>bin_stats = [], rankfit_v = 1, rankfit_t = Fin 1, violations = []\<rparr>"
proof -
  have "assign_bins n_bins y_scores = Inr (map (\<lambda>v. None) y_scores)"
    by (simp add: assign_bins_def qcut_identical [OF assms(1,2,4)] reverse_bins_all_None)
  then show ?thesis
    using assms(3)
    by (simp add: calculate_metrics_def groupby_agg_def group_keys_all_None
          find_violations_def violations_loop_eq calculate_rankfit_v_def
          calculate_rankfit_t_def)
qed

subsection \<open>Scores that differ\<close>

text \<open>
  When two scores differ and \<open>n_bins\<close> is at least 1, the smallest and the largest
  score are two distinct edges, and every example lies in a bin.
\<close>

lemma linspace_0_1_last:
  assumes "1 \<le> q" and "linspace 0 1 (q + 1) = Inr qs"
  shows "1 \<in> set qs"
proof -
  have "nat q \<in> set [0..<nat (q + 1)]" using assms(1) by simp
  moreover have "real (nat q) / real_of_int q = 1" using assms(1) by simp
  ultimately have "1 \<in> (\<lambda>i. real i / real_of_int q) ` set [0..<nat (q + 1)]"
    by (metis image_eqI)
  then show ?thesis
    using assms by (auto simp: linspace_def split: if_splits)
qed

lemma bin_label_inside:
  assumes "bins = b0 # rest" and "2 \<le> length bins" and "b0 \<le> v"
    and "e \<in> set bins" and "v \<le> e"
  shows "bin_label bins v \<noteq> None"
proof (cases "v = b0")
  case True
  then show ?thesis using assms(1,2) by (auto simp: bin_label_def)
next
  case False
  with assms(3) have "b0 < v" by simp
  then have low: "1 \<le> searchsorted_left bins v"
    by (simp add: assms(1) searchsorted_left_def)
  have "\<not> e < v" using assms(5) by simp
  with assms(4) have "takeWhile (\<lambda>b. b < v) bins \<noteq> bins"
    unfolding takeWhile_eq_all_conv by blast
  then have "length (takeWhile (\<lambda>b. b < v) bins) \<noteq> length bins"
    by (metis takeWhile_eq_take take_all_iff length_takeWhile_le)
  then have "searchsorted_left bins v \<noteq> length bins"
    by (simp add: searchsorted_left_def)
  with low False show ?thesis
    by (simp add: bin_label_def assms(1))
qed

lemma bins_to_cuts_Drop:
  assumes "edges = e0 # rest"
  shows "\<exists>bins tl. bins_to_cuts x edges Drop = Inr (map (bin_label bins) x)
           \<and> bins = e0 # tl \<and> set bins = set edges"
proof (cases "length (unique edges) < length edges \<and> length edges \<noteq> 2")
  case True
  obtain tl where tl: "unique edges = e0 # tl"
    by (simp add: assms unique_def)
  have "bins_to_cuts x edges Drop = Inr (map (bin_label (unique edges)) x)"
    using True tl by (simp add: bins_to_cuts_def Let_def)
  with tl set_unique [of edges] show ?thesis by metis
next
  case False
  have "bins_to_cuts x edges Drop = Inr (map (bin_label edges) x)"
    using False assms by (auto simp: bins_to_cuts_def Let_def)
  with assms show ?thesis by metis
qed

lemma qcut_no_nan:
  assumes "qcut x q = Inr raw" and "1 \<le> q"
    and "s \<in> set x" and "t \<in> set x" and "s \<noteq> t"
  shows "None \<notin> set raw"
proof -
  from assms(3) have ne: "x \<noteq> []" by auto
  let ?lo = "sort x ! 0" and ?hi = "sort x ! (length x - 1)"
  from assms(1) ne obtain qs where qs: "linspace 0 1 (q + 1) = Inr qs"
    and btc: "bins_to_cuts x (map (quantile x) qs) Drop = Inr raw"
    by (auto simp: qcut_def split: sum.splits if_splits)
  from assms(2) have "0 \<le> q" by simp
  from linspace_0_1_Inr [OF this] qs have lenqs: "length qs = nat q + 1" by auto
  from linspace_0_1_cases [OF qs] lenqs obtain rest where rest: "qs = 0 # rest"
    by auto
  define edges where "edges = map (quantile x) qs"
  have edges: "edges = ?lo # map (quantile x) rest"
    by (simp add: edges_def rest quantile_0)
  have "1 \<in> set qs" by (rule linspace_0_1_last [OF assms(2) qs])
  then have "quantile x 1 \<in> set edges" unfolding edges_def set_map by (rule imageI)
  then have hi_in: "?hi \<in> set edges" by (simp only: quantile_1)
  from bins_to_cuts_Drop [OF edges, of x] obtain bins tl where
    cuts: "bins_to_cuts x edges Drop = Inr (map (bin_label bins) x)"
    and bins: "bins = ?lo # tl" and set_bins: "set bins = set edges"
    by blast
  from cuts btc have raw: "raw = map (bin_label bins) x"
    by (simp add: edges_def)
  have "?lo \<le> s" "s \<le> ?hi" "?lo \<le> t" "t \<le> ?hi"
    using sort_first_le [OF assms(3)] sort_last_ge [OF assms(3)]
      sort_first_le [OF assms(4)] sort_last_ge [OF assms(4)] by blast+
  with assms(5) have ne_lo_hi: "?lo \<noteq> ?hi" by linarith
  have hi_bins: "?hi \<in> set bins" using hi_in set_bins by simp
  have "?lo \<in> set bins" by (simp add: bins)
  with hi_bins have "{?lo, ?hi} \<subseteq> set bins" by simp
  then have "card {?lo, ?hi} \<le> card (set bins)"
    by (intro card_mono) simp_all
  also have "\<dots> \<le> length bins" by (rule card_length)
  finally have len2: "2 \<le> length bins" using ne_lo_hi by simp
  have lbl: "bin_label bins v \<noteq> None" if "v \<in> set x" for v
    by (rule bin_label_inside [OF bins len2 sort_first_le [OF that] hi_bins
          sort_last_ge [OF that]])
  show ?thesis
  proof
    assume "None \<in> set raw"
    then have "None \<in> bin_label bins ` set x" by (simp only: raw set_map)
    then obtain v where "v \<in> set x" "bin_label bins v = None" by (metis imageE)
    with lbl show False by blast
  qed
qed

lemma reverse_bins_no_nan:
  assumes "None \<notin> set raw"
  shows "None \<notin> set (reverse_bins raw)"
proof (cases raw)
  case Nil
  then show ?thesis by (simp add: reverse_bins_def)
next
  case (Cons b bs)
  with assms obtain k where "b = Some k" by (cases b) auto
  then obtain ks where
    "concat (map (\<lambda>b. case b of None \<Rightarrow> [] | Some k \<Rightarrow> [k]) raw) = k # ks"
    by (simp add: Cons)
  then have "reverse_bins raw = map (map_option (\<lambda>b. fold max ks k - b)) raw"
    by (simp add: reverse_bins_def)
  with assms show ?thesis by (auto simp: image_iff)
qed

lemma group_sizes_sum:
  fixes df :: frame
  assumes "finite K" and "\<forall>row \<in> set df. \<exists>k \<in> K. snd (snd row) = Some k"
  shows "(\<Sum>k \<in> K. length (group_rows df k)) = length df"
  using assms(2)
proof (induction df)
  case Nil
  then show ?case by (simp add: group_rows_def)
next
  case (Cons row df)
  obtain score actual b where row: "row = (score, actual, b)" by (cases row) auto
  with Cons.prems obtain k0 where k0: "k0 \<in> K" "b = Some k0" by auto
  have "length (group_rows (row # df) k) = (if k0 = k then 1 else 0) + length (group_rows df k)"
    for k
    by (simp add: group_rows_def row k0(2))
  then have "(\<Sum>k \<in> K. length (group_rows (row # df) k))
               = (\<Sum>k \<in> K. if k0 = k then 1 else 0) + (\<Sum>k \<in> K. length (group_rows df k))"
    by (simp add: sum.distrib)
  also have "(\<Sum>k \<in> K. if k0 = k then 1 else 0) = (1::nat)"
    using assms(1) k0(1) by simp
  also have "(\<Sum>k \<in> K. length (group_rows df k)) = length df"
    using Cons by simp
  finally show ?case by simp
qed

lemma groupby_counts:
  "map actual_count (groupby_agg df) = map (\<lambda>k. length (group_rows df k)) (group_keys df)"
  by (simp add: groupby_agg_def Let_def comp_def)

lemma groupby_counts_sum:
  assumes "\<forall>row \<in> set df. snd (snd row) \<noteq> None"
  shows "sum_list (map actual_count (groupby_agg df)) = length df"
proof -
  have d: "distinct (group_keys df)"
    using group_keys_strict [of df] by (simp add: strict_sorted_iff)
  have "\<forall>row \<in> set df. \<exists>k \<in> set (group_keys df). snd (snd row) = Some k"
  proof
    fix row assume r: "row \<in> set df"
    obtain score actual b where row: "row = (score, actual, b)" by (cases row) auto
    with assms r obtain k where "b = Some k" by (cases b) auto
    with r row show "\<exists>k \<in> set (group_keys df). snd (snd row) = Some k"
      by (auto simp: set_group_keys)
  qed
  from group_sizes_sum [OF _ this]
  have "(\<Sum>k \<in> set (group_keys df). length (group_rows df k)) = length df" by simp
  then show ?thesis
    by (simp add: groupby_counts sum_list_distinct_conv_sum_set [OF d])
qed

lemma groupby_counts_positive:
  assumes "row \<in> set (groupby_agg df)"
  shows "1 \<le> actual_count row"
proof -
  from assms obtain k where k: "k \<in> set (group_keys df)"
    and c: "actual_count row = length (group_rows df k)"
    by (auto simp: groupby_agg_def Let_def)
  from k obtain score actual where "(score, actual, Some k) \<in> set df"
    by (auto simp: set_group_keys)
  then have "(score, actual, Some k) \<in> set (group_rows df k)"
    by (simp add: group_rows_def)
  then have "group_rows df k \<noteq> []" by auto
  with c show ?thesis by (cases "group_rows df k") simp_all
qed

text \<open>
  With \<open>n_bins\<close> at least 1 and two scores that differ, the segments partition the
  input: the counts add up to the number of examples, and each count is at least 1.
\<close>

lemma partition_exact:
  assumes "calculate_metrics n_bins y_scores y_true = Inr r" and "1 \<le> n_bins"
    and "s \<in> set y_scores" and "t \<in> set y_scores" and "s \<noteq> t"
  shows "sum_list (map actual_count (bin_stats r)) = length y_scores
         \<and> (\<forall>row \<in> set (bin_stats r). 1 \<le> actual_count row)"
proof -
  from calculate_metrics_InrD(4) [OF assms(1)] obtain bins where
    bins: "assign_bins n_bins y_scores = Inr bins" "length y_scores = length y_true"
      "bin_stats r = groupby_agg (zip y_scores (zip y_true bins))"
    by blast
  from assign_bins_InrD [OF bins(1)] obtain raw where
    raw: "qcut y_scores n_bins = Inr raw" "bins = reverse_bins raw" by blast
  have "None \<notin> set bins"
    unfolding raw(2) by (rule reverse_bins_no_nan [OF qcut_no_nan [OF raw(1) assms(2-5)]])
  then have "\<forall>row \<in> set (zip y_scores (zip y_true bins)). snd (snd row) \<noteq> None"
    by (metis set_zip_rightD prod.collapse)
  from groupby_counts_sum [OF this]
  have "sum_list (map actual_count (bin_stats r)) = length y_scores"
    using bins(2) assign_bins_length [OF bins(1)] by (simp add: bins(3))
  then show ?thesis
    using groupby_counts_positive by (auto simp: bins(3))
qed

end
